theory Spec2Isabelle
  imports Main "HOL-Library.Word"
begin

section \<open>The order record (class Order, OrderCache.h)\<close>

text \<open>
  Quantities are C++ \<^verbatim>\<open>unsigned int\<close>: 32-bit words whose arithmetic wraps around.
  The record fields carry the names of the getters of the class; \<open>workingQty\<close> is the
  only field the class ever changes. The per-order mutex and its \<^verbatim>\<open>m_locked\<close> flag are
  left out: every sequential path of the cache calls the matcher and the cancellation
  with \<^verbatim>\<open>lockOrder = false\<close>, where \<^verbatim>\<open>lock()\<close> is never called and \<^verbatim>\<open>unlock()\<close> returns
  without touching anything else.
\<close>

type_synonym u32 = "32 word"

record Order =
  orderId :: string
  securityId :: string
  side :: string
  qty :: u32
  user :: string
  company :: string
  workingQty :: u32

text \<open>The constructor: \<^verbatim>\<open>m_workingQty = qty\<close>.\<close>

definition newOrder :: "string \<Rightarrow> string \<Rightarrow> string \<Rightarrow> u32 \<Rightarrow> string \<Rightarrow> string \<Rightarrow> Order" where
  "newOrder ordId secId sd q usr cmpy =
     \<lparr>orderId = ordId, securityId = secId, side = sd, qty = q, user = usr,
      company = cmpy, workingQty = q\<rparr>"

definition filledQty :: "Order \<Rightarrow> u32" where
  "filledQty ord = qty ord - workingQty ord"

text \<open>\<^verbatim>\<open>if (m_workingQty > qty) m_workingQty -= qty; else m_workingQty = 0;\<close>\<close>

definition fillLots :: "u32 \<Rightarrow> Order \<Rightarrow> Order" where
  "fillLots n ord =
     (if workingQty ord > n then ord\<lparr>workingQty := workingQty ord - n\<rparr>
      else ord\<lparr>workingQty := 0\<rparr>)"

text \<open>\<^verbatim>\<open>m_workingQty += qty; if (m_workingQty > m_qty) m_workingQty = m_qty;\<close>
  The addition is the 32-bit one.\<close>

definition unfillLots :: "u32 \<Rightarrow> Order \<Rightarrow> Order" where
  "unfillLots n ord =
     (let ord1 = ord\<lparr>workingQty := workingQty ord + n\<rparr>
      in if workingQty ord1 > qty ord1 then ord1\<lparr>workingQty := qty ord1\<rparr> else ord1)"

definition isFilled :: "Order \<Rightarrow> bool" where
  "isFilled ord = (workingQty ord = 0)"

definition resetFills :: "Order \<Rightarrow> Order" where
  "resetFills ord = ord\<lparr>workingQty := qty ord\<rparr>"

text \<open>\<^verbatim>\<open>isBuySide\<close>: every side string other than the literal "Sell" is the buy side.\<close>

definition isBuySide :: "Order \<Rightarrow> bool" where
  "isBuySide ord = (side ord \<noteq> ''Sell'')"


section \<open>The cache (class OrderCache)\<close>

text \<open>
  \<^verbatim>\<open>_orders\<close> is a \<^verbatim>\<open>std::list<Order>\<close> and an \<^verbatim>\<open>order_ptr\<close> is an iterator into it. The
  nodes of the list live in an explicit store \<open>heap\<close> from addresses to orders, and
  \<open>orders\<close> is the sequence of node addresses, front first. The indexes hold addresses
  where the source holds iterators, and order ids where it holds strings.

  \<^verbatim>\<open>_orderIndex\<close>, the one container whose \<^verbatim>\<open>size()\<close> the code reads, is an association
  list with one pair per key: \<^verbatim>\<open>count\<close> and \<^verbatim>\<open>operator[]\<close> are \<^const>\<open>map_of\<close>, \<^verbatim>\<open>insert\<close>
  adds a pair when the key is absent, \<^verbatim>\<open>erase\<close> filters the key out and \<^verbatim>\<open>size()\<close> is the
  length. The other \<^verbatim>\<open>unordered_map\<close>s are maps.

  A \<^verbatim>\<open>std::unordered_set<std::string>\<close> is a duplicate-free list of ids: \<^verbatim>\<open>insert\<close> is
  \<^const>\<open>List.insert\<close>, \<^verbatim>\<open>erase\<close> is \<^const>\<open>removeAll\<close>, and a range-for visits the list from
  its head (the standard leaves the iteration order open).
\<close>

type_synonym addr = nat

record OrderCache =
  multiThread :: bool
  heap :: "addr \<rightharpoonup> Order"
  orders :: "addr list"
  orderIndex :: "(string \<times> addr) list"
  userOrdersIndex :: "string \<rightharpoonup> string list"
  securityOrdersIndex :: "string \<rightharpoonup> string list"
  securityLongOrdersIndex :: "string \<rightharpoonup> addr list"
  securityShortOrdersIndex :: "string \<rightharpoonup> addr list"
  matchedQuantity :: "string \<rightharpoonup> u32"

text \<open>A freshly constructed cache: all containers empty, \<^verbatim>\<open>_multiThread = true\<close>.\<close>

definition emptyCache :: OrderCache where
  "emptyCache =
     \<lparr>multiThread = True, heap = Map.empty, orders = [], orderIndex = [],
      userOrdersIndex = Map.empty, securityOrdersIndex = Map.empty,
      securityLongOrdersIndex = Map.empty, securityShortOrdersIndex = Map.empty,
      matchedQuantity = Map.empty\<rparr>"

definition setMultiThread :: "bool \<Rightarrow> OrderCache \<Rightarrow> OrderCache" where
  "setMultiThread v c = c\<lparr>multiThread := v\<rparr>"

text \<open>\<^verbatim>\<open>m[k]\<close> on an \<^verbatim>\<open>unordered_map\<close>: the value stored under \<open>k\<close>, after inserting a
  value-initialised one (\<open>d\<close>) when the key is absent.\<close>

definition subscript :: "('k \<rightharpoonup> 'v) \<Rightarrow> 'k \<Rightarrow> 'v \<Rightarrow> 'v" where
  "subscript m k d = (case m k of None \<Rightarrow> d | Some v \<Rightarrow> v)"

definition touch :: "('k \<rightharpoonup> 'v) \<Rightarrow> 'k \<Rightarrow> 'v \<Rightarrow> ('k \<rightharpoonup> 'v)" where
  "touch m k d = (case m k of None \<Rightarrow> m(k \<mapsto> d) | Some v \<Rightarrow> m)"

text \<open>Dereferencing an iterator. An address outside the store is a dangling iterator
  (undefined behaviour in C++); lemma \<open>wf_run\<close> below shows that the cache never holds one.\<close>

definition deref :: "(addr \<rightharpoonup> Order) \<Rightarrow> addr \<Rightarrow> Order" where
  "deref h a = the (h a)"

text \<open>The node \<^verbatim>\<open>push_front\<close> allocates: an address no node of the list has.\<close>

definition newPtr :: "OrderCache \<Rightarrow> addr" where
  "newPtr c = Suc (foldr max (orders c) 0)"

definition exists_order :: "string \<Rightarrow> OrderCache \<Rightarrow> bool" where
  "exists_order ordId c = (map_of (orderIndex c) ordId \<noteq> None)"

text \<open>\<^verbatim>\<open>unordered_map::insert\<close> keeps the pair already stored under the key, if any.\<close>

definition index_insert :: "'k \<Rightarrow> 'v \<Rightarrow> ('k \<times> 'v) list \<Rightarrow> ('k \<times> 'v) list" where
  "index_insert k v al = (if map_of al k = None then (k, v) # al else al)"

definition index_erase :: "'k \<Rightarrow> ('k \<times> 'v) list \<Rightarrow> ('k \<times> 'v) list" where
  "index_erase k al = filter (\<lambda>e. fst e \<noteq> k) al"

text \<open>\<^verbatim>\<open>size()\<close> is \<^verbatim>\<open>_orderIndex.size()\<close>.\<close>

definition size_cache :: "OrderCache \<Rightarrow> nat" where
  "size_cache c = length (orderIndex c)"

definition getMatchedQuantityInCache :: "string \<Rightarrow> OrderCache \<Rightarrow> u32" where
  "getMatchedQuantityInCache secId c =
     (case matchedQuantity c secId of None \<Rightarrow> 0 | Some v \<Rightarrow> v)"


subsection \<open>The matcher (matchOrderInCache)\<close>

text \<open>
  The loop over \<^verbatim>\<open>counterParties\<close>, a copy of the vector of iterators. Each iteration
  reads the order and the counterparty through their iterators, so the store is
  threaded through; \<open>m\<close> is \<^verbatim>\<open>matchedQuantity\<close>.
\<close>

fun matchLoop :: "addr \<Rightarrow> addr list \<Rightarrow> (addr \<rightharpoonup> Order) \<Rightarrow> u32 \<Rightarrow> (addr \<rightharpoonup> Order) \<times> u32" where
  "matchLoop a [] h m = (h, m)"
| "matchLoop a (x # xs) h m =
     (if isFilled (deref h x) \<or> company (deref h a) = company (deref h x)
      then matchLoop a xs h m
      else let q = min (workingQty (deref h a)) (workingQty (deref h x))
           in if q = 0 then matchLoop a xs h m
              else let h1 = h(a \<mapsto> fillLots q (deref h a));
                       h2 = h1(x \<mapsto> fillLots q (deref h1 x));
                       m' = m + q
                   in if isFilled (deref h2 a) then (h2, m') else matchLoop a xs h2 m')"

text \<open>
  \<^verbatim>\<open>matchOrderInCache(order, lockOrder)\<close> returns the matched quantity and leaves the
  cache updated. Reading the opposite side list with \<^verbatim>\<open>operator[]\<close> creates an empty
  entry when the security has none.
\<close>

definition matchOrderInCache :: "addr \<Rightarrow> OrderCache \<Rightarrow> u32 \<times> OrderCache" where
  "matchOrderInCache a c =
     (if isFilled (deref (heap c) a) then (0, c)
      else
        let ord = deref (heap c) a;
            isBuy = isBuySide ord;
            c1 = (if isBuy
                  then c\<lparr>securityShortOrdersIndex :=
                            touch (securityShortOrdersIndex c) (securityId ord) []\<rparr>
                  else c\<lparr>securityLongOrdersIndex :=
                            touch (securityLongOrdersIndex c) (securityId ord) []\<rparr>);
            counterParties = (if isBuy
                  then subscript (securityShortOrdersIndex c) (securityId ord) []
                  else subscript (securityLongOrdersIndex c) (securityId ord) [])
        in if counterParties = [] then (0, c1)
           else
             let (h', m) = matchLoop a counterParties (heap c1) 0
             in (m, c1\<lparr>heap := h',
                       matchedQuantity := (matchedQuantity c1)
                         (securityId ord \<mapsto>
                            subscript (matchedQuantity c1) (securityId ord) 0 + m)\<rparr>))"

text \<open>The vector \<^verbatim>\<open>counterParties\<close> that the matcher copies for the order behind an iterator.\<close>

definition counterParties :: "addr \<Rightarrow> OrderCache \<Rightarrow> addr list" where
  "counterParties a c =
     (if isBuySide (deref (heap c) a)
      then subscript (securityShortOrdersIndex c) (securityId (deref (heap c) a)) []
      else subscript (securityLongOrdersIndex c) (securityId (deref (heap c) a)) [])"


subsection \<open>addOrder\<close>

text \<open>
  The macro \<^verbatim>\<open>USE_CACHED_MATCHING_AT_ADD_ORDER\<close> is the parameter \<open>cached\<close> (the shipped
  header defines it: \<open>cached = True\<close>, the eager mode). \<^verbatim>\<open>THROW_EXCEPTIONS\<close> is not
  defined in the shipped header, so a rejected call returns. \<open>insertOrder\<close> is the part
  of \<^verbatim>\<open>addOrder\<close> between the duplicate check and the matching: it stores the order at
  the front of \<^verbatim>\<open>_orders\<close> and enters it into the four indexes.
\<close>

definition insertOrder :: "Order \<Rightarrow> OrderCache \<Rightarrow> addr \<times> OrderCache" where
  "insertOrder ord c =
     (let ptr = newPtr c;
          c1 = c\<lparr>orders := ptr # orders c, heap := (heap c)(ptr \<mapsto> ord)\<rparr>;
          c2 = c1\<lparr>orderIndex := index_insert (orderId ord) ptr (orderIndex c1)\<rparr>;
          c3 = c2\<lparr>userOrdersIndex := (userOrdersIndex c2)
                    (user ord \<mapsto>
                       List.insert (orderId ord) (subscript (userOrdersIndex c2) (user ord) []))\<rparr>;
          c4 = c3\<lparr>securityOrdersIndex := (securityOrdersIndex c3)
                    (securityId ord \<mapsto>
                       List.insert (orderId ord)
                         (subscript (securityOrdersIndex c3) (securityId ord) []))\<rparr>;
          c5 = (if isBuySide ord
                then c4\<lparr>securityLongOrdersIndex := (securityLongOrdersIndex c4)
                          (securityId ord \<mapsto>
                             subscript (securityLongOrdersIndex c4) (securityId ord) [] @ [ptr])\<rparr>
                else c4\<lparr>securityShortOrdersIndex := (securityShortOrdersIndex c4)
                          (securityId ord \<mapsto>
                             subscript (securityShortOrdersIndex c4) (securityId ord) [] @ [ptr])\<rparr>)
      in (ptr, c5))"

definition addOrder :: "bool \<Rightarrow> Order \<Rightarrow> OrderCache \<Rightarrow> OrderCache" where
  "addOrder cached ord c =
     (if exists_order (orderId ord) c then c
      else
        let (ptr, c5) = insertOrder ord c
        in if cached then snd (matchOrderInCache ptr c5) else c5)"


subsection \<open>Cancellation\<close>

text \<open>
  \<^verbatim>\<open>index.erase(std::remove_if(index.begin(), index.end(), pred))\<close>: \<^verbatim>\<open>remove_if\<close> moves
  the elements to keep to the front and returns the position after them, and the
  one-argument \<^verbatim>\<open>erase\<close> removes the single element at that position. With exactly
  one matching element the result is the list without it. With none the position is
  \<^verbatim>\<open>end()\<close>, which \<^verbatim>\<open>erase\<close> must not be given; the model leaves the list as it is,
  and lemma \<open>wf_side_list_one\<close> below shows that the cache never gets there.
\<close>

definition erase_remove_if :: "('a \<Rightarrow> bool) \<Rightarrow> 'a list \<Rightarrow> 'a list" where
  "erase_remove_if P xs =
     (let ys = filter (\<lambda>x. \<not> P x) xs
      in if length ys = length xs then xs else ys @ drop (Suc (length ys)) xs)"

definition cancelSingleOrder :: "string \<Rightarrow> u32 \<Rightarrow> OrderCache \<Rightarrow> OrderCache" where
  "cancelSingleOrder ordId minQty c =
     (case map_of (orderIndex c) ordId of
        None \<Rightarrow> c
      | Some ptr \<Rightarrow>
          let ord = deref (heap c) ptr
          in if minQty > 0 \<and> qty ord < minQty then c
             else
               let c1 = c\<lparr>userOrdersIndex := (userOrdersIndex c)
                         (user ord \<mapsto>
                            removeAll ordId (subscript (userOrdersIndex c) (user ord) []))\<rparr>;
                   c2 = c1\<lparr>securityOrdersIndex := (securityOrdersIndex c1)
                         (securityId ord \<mapsto>
                            removeAll ordId
                              (subscript (securityOrdersIndex c1) (securityId ord) []))\<rparr>;
                   c3 = (if isBuySide ord
                         then c2\<lparr>securityLongOrdersIndex := (securityLongOrdersIndex c2)
                                (securityId ord \<mapsto>
                                   erase_remove_if (\<lambda>p. orderId (deref (heap c2) p) = ordId)
                                     (subscript (securityLongOrdersIndex c2) (securityId ord) []))\<rparr>
                         else c2\<lparr>securityShortOrdersIndex := (securityShortOrdersIndex c2)
                                (securityId ord \<mapsto>
                                   erase_remove_if (\<lambda>p. orderId (deref (heap c2) p) = ordId)
                                     (subscript (securityShortOrdersIndex c2) (securityId ord) []))\<rparr>);
                   c4 = c3\<lparr>orderIndex := index_erase ordId (orderIndex c3)\<rparr>
               in c4\<lparr>orders := remove1 ptr (orders c4), heap := (heap c4)(ptr := None)\<rparr>)"

text \<open>\<^verbatim>\<open>cancelOrder\<close> passes \<^verbatim>\<open>false\<close> for \<^verbatim>\<open>minQty\<close>, that is 0.\<close>

definition cancelOrder :: "string \<Rightarrow> OrderCache \<Rightarrow> OrderCache" where
  "cancelOrder ordId c = cancelSingleOrder ordId 0 c"

text \<open>\<^verbatim>\<open>cancelOrders\<close>: the source sets \<^verbatim>\<open>singleThreadDelete = true\<close> before the branch, so
  the ids are always cancelled one after the other.\<close>

definition cancelOrders :: "string list \<Rightarrow> u32 \<Rightarrow> OrderCache \<Rightarrow> OrderCache" where
  "cancelOrders ordIds minQty c = fold (\<lambda>ordId. cancelSingleOrder ordId minQty) ordIds c"

text \<open>Both batch cancellations copy the id set of the key before cancelling.\<close>

definition cancelOrdersForUser :: "string \<Rightarrow> OrderCache \<Rightarrow> OrderCache" where
  "cancelOrdersForUser usr c =
     (case userOrdersIndex c usr of
        None \<Rightarrow> c
      | Some ordersKeys \<Rightarrow> cancelOrders ordersKeys 0 c)"

definition cancelOrdersForSecIdWithMinimumQty :: "string \<Rightarrow> u32 \<Rightarrow> OrderCache \<Rightarrow> OrderCache" where
  "cancelOrdersForSecIdWithMinimumQty secId minQty c =
     (case securityOrdersIndex c secId of
        None \<Rightarrow> c
      | Some ordersKeys \<Rightarrow> cancelOrders ordersKeys minQty c)"


subsection \<open>Queries\<close>

text \<open>
  \<^verbatim>\<open>getMatchingSizeForSecurity\<close>. With the macro defined (\<open>cached\<close>) it reads the match
  cache. Without it, it drives the matcher over the buy side of the security. The
  single-thread branch (\<open>matchAll\<close>, the loop \<^verbatim>\<open>qty += matchOrderInCache(order, false)\<close>)
  sums what the calls return.
\<close>

fun matchAll :: "addr list \<Rightarrow> u32 \<Rightarrow> OrderCache \<Rightarrow> u32 \<times> OrderCache" where
  "matchAll [] q c = (q, c)"
| "matchAll (p # ps) q c = (let (m, c') = matchOrderInCache p c in matchAll ps (q + m) c')"

text \<open>
  The thread-pool branch starts one thread per buy order of the security, each running
  \<^verbatim>\<open>matchOrderInCache(order, true)\<close>, and reads the match cache when the pool is empty
  again. The threads run at the same time, and \<^verbatim>\<open>Order::lock\<close> is a \<^verbatim>\<open>try_lock\<close> whose result
  nobody reads, so which thread fills which lots of a sell order depends on the schedule.
  The model does not pick a schedule. It takes the working quantities that the pool
  leaves as a parameter \<open>left\<close> and keeps what holds under every schedule:

    \<^item> a thread writes its own buy order and the sell orders of the security only, and
      only through \<^verbatim>\<open>fillLots\<close>: these orders end with a working quantity at or below the
      one they had (\<open>leave\<close>), every other order and field is as before;
    \<^item> a buy order is written by its own thread alone, and every fill of it is counted:
      the thread adds to the match cache exactly the lots its buy order has lost;
    \<^item> a thread whose buy order is filled returns at once; otherwise it looks up the
      sell side with \<^verbatim>\<open>operator[]\<close> and returns without a write to the match cache when
      there is no sell order.

  \<open>threadPool\<close> is the outcome of the pool in the cache at hand; nothing is known about it.
  The model describes the call when it returns (the loops that wait for the pool need
  not end: \<^verbatim>\<open>hardware_concurrency()\<close> may be 0).
\<close>

definition leave :: "u32 \<Rightarrow> Order \<Rightarrow> Order" where
  "leave n ord = ord\<lparr>workingQty := min (workingQty ord) n\<rparr>"

definition runPool :: "(addr \<Rightarrow> u32) \<Rightarrow> string \<Rightarrow> OrderCache \<Rightarrow> OrderCache" where
  "runPool left secId c =
     (let longs = subscript (securityLongOrdersIndex c) secId [];
          shorts = subscript (securityShortOrdersIndex c) secId []
      in if list_all (\<lambda>a. isFilled (deref (heap c) a)) longs then c
         else
           let c1 = c\<lparr>securityShortOrdersIndex :=
                       touch (securityShortOrdersIndex c) secId []\<rparr>
           in if shorts = [] then c1
              else
                let h' = (\<lambda>a. if a \<in> set longs \<or> a \<in> set shorts
                              then map_option (leave (left a)) (heap c a) else heap c a);
                    m = sum_list (map (\<lambda>a. workingQty (deref (heap c) a)
                                            - workingQty (deref h' a)) longs)
                in c1\<lparr>heap := h',
                       matchedQuantity := (matchedQuantity c1)
                         (secId \<mapsto> subscript (matchedQuantity c1) secId 0 + m)\<rparr>)"

definition threadPool :: "OrderCache \<Rightarrow> addr \<Rightarrow> u32" where
  "threadPool = (SOME left. True)"

definition getMatchingSizeForSecurity :: "bool \<Rightarrow> string \<Rightarrow> OrderCache \<Rightarrow> u32 \<times> OrderCache" where
  "getMatchingSizeForSecurity cached secId c =
     (if securityOrdersIndex c secId = None then (0, c)
      else if cached then (getMatchedQuantityInCache secId c, c)
      else
        let c1 = c\<lparr>securityLongOrdersIndex := touch (securityLongOrdersIndex c) secId []\<rparr>;
            longs = subscript (securityLongOrdersIndex c) secId []
        in if \<not> multiThread c \<or> size_cache c < 2
           then matchAll longs 0 c1
           else let c2 = runPool (threadPool c1) secId c1
                in (getMatchedQuantityInCache secId c2, c2))"

definition getAllOrders :: "OrderCache \<Rightarrow> Order list" where
  "getAllOrders c = map (deref (heap c)) (orders c)"


subsection \<open>Sequences of calls\<close>

text \<open>The public operations that the claims are about, and a cache driven through a
  sequence of them. \<open>answers\<close> collects what the queries of the sequence return.\<close>

datatype operation =
    AddOrder Order
  | CancelOrder string
  | CancelOrdersForUser string
  | CancelOrdersForSecIdWithMinimumQty string u32
  | GetMatchingSizeForSecurity string
  | SetMultiThread bool

fun step :: "bool \<Rightarrow> operation \<Rightarrow> OrderCache \<Rightarrow> OrderCache" where
  "step cached (AddOrder ord) c = addOrder cached ord c"
| "step cached (CancelOrder ordId) c = cancelOrder ordId c"
| "step cached (CancelOrdersForUser usr) c = cancelOrdersForUser usr c"
| "step cached (CancelOrdersForSecIdWithMinimumQty secId minQty) c =
     cancelOrdersForSecIdWithMinimumQty secId minQty c"
| "step cached (GetMatchingSizeForSecurity secId) c =
     snd (getMatchingSizeForSecurity cached secId c)"
| "step cached (SetMultiThread v) c = setMultiThread v c"

definition run :: "bool \<Rightarrow> operation list \<Rightarrow> OrderCache \<Rightarrow> OrderCache" where
  "run cached ops c = fold (step cached) ops c"

fun answers :: "bool \<Rightarrow> operation list \<Rightarrow> OrderCache \<Rightarrow> u32 list" where
  "answers cached [] c = []"
| "answers cached (GetMatchingSizeForSecurity secId # ops) c =
     fst (getMatchingSizeForSecurity cached secId c)
       # answers cached ops (step cached (GetMatchingSizeForSecurity secId) c)"
| "answers cached (opn # ops) c = answers cached ops (step cached opn c)"


section \<open>The README scenario\<close>

definition scenarioA :: "operation list" where
  "scenarioA =
    [AddOrder (newOrder ''OrdId1'' ''SecId1'' ''Buy'' 1000 ''User1'' ''CompanyA''),
     AddOrder (newOrder ''OrdId2'' ''SecId2'' ''Sell'' 3000 ''User2'' ''CompanyB''),
     AddOrder (newOrder ''OrdId3'' ''SecId1'' ''Sell'' 500 ''User3'' ''CompanyA''),
     AddOrder (newOrder ''OrdId4'' ''SecId2'' ''Buy'' 600 ''User4'' ''CompanyC''),
     AddOrder (newOrder ''OrdId5'' ''SecId2'' ''Buy'' 100 ''User5'' ''CompanyB''),
     AddOrder (newOrder ''OrdId6'' ''SecId3'' ''Buy'' 1000 ''User6'' ''CompanyD''),
     AddOrder (newOrder ''OrdId7'' ''SecId2'' ''Buy'' 2000 ''User7'' ''CompanyE''),
     AddOrder (newOrder ''OrdId8'' ''SecId2'' ''Sell'' 5000 ''User8'' ''CompanyE'')]"


text \<open>Small orders used in the worked examples below.\<close>

definition buyA :: Order where
  "buyA = newOrder ''b1'' ''SecId1'' ''Buy'' 100 ''User1'' ''CompanyA''"

definition sellB :: Order where
  "sellB = newOrder ''s1'' ''SecId1'' ''Sell'' 100 ''User2'' ''CompanyB''"

definition buyA500 :: Order where
  "buyA500 = newOrder ''b5'' ''SecId1'' ''Buy'' 500 ''User1'' ''CompanyA''"

definition dupOfBuyA :: Order where
  "dupOfBuyA = newOrder ''b1'' ''SecId2'' ''Sell'' 7 ''User9'' ''CompanyZ''"

definition halfFilled :: Order where
  "halfFilled = fillLots 5 (newOrder ''o1'' ''SecId1'' ''Buy'' 10 ''User1'' ''CompanyA'')"

section \<open>Well-formed caches\<close>

text \<open>
  The invariant that ties the store, the order list and the indexes together. Every
  cache reached from the empty one through the public operations satisfies it
  (lemma \<open>wf_run\<close>). \<open>static\<close> forgets the working quantity, the only field of an order
  that changes after construction.
\<close>

definition static :: "Order \<Rightarrow> Order" where
  "static ord = ord\<lparr>workingQty := 0\<rparr>"

definition same_static :: "(addr \<rightharpoonup> Order) \<Rightarrow> (addr \<rightharpoonup> Order) \<Rightarrow> bool" where
  "same_static h h' = (\<forall>a. map_option static (h' a) = map_option static (h a))"

definition wf_store :: "OrderCache \<Rightarrow> bool" where
  "wf_store c = (distinct (orders c) \<and> dom (heap c) = set (orders c))"

definition wf_index :: "OrderCache \<Rightarrow> bool" where
  "wf_index c =
     (distinct (map fst (orderIndex c)) \<and>
      (\<forall>i a. map_of (orderIndex c) i = Some a \<longleftrightarrow>
               a \<in> set (orders c) \<and> orderId (deref (heap c) a) = i))"

definition wf_user :: "OrderCache \<Rightarrow> bool" where
  "wf_user c =
     (\<forall>u. distinct (subscript (userOrdersIndex c) u []) \<and>
          set (subscript (userOrdersIndex c) u []) =
            {orderId (deref (heap c) a) |a. a \<in> set (orders c) \<and> user (deref (heap c) a) = u})"

definition wf_security :: "OrderCache \<Rightarrow> bool" where
  "wf_security c =
     (\<forall>s. distinct (subscript (securityOrdersIndex c) s []) \<and>
          set (subscript (securityOrdersIndex c) s []) =
            {orderId (deref (heap c) a) |a. a \<in> set (orders c) \<and> securityId (deref (heap c) a) = s})"

text \<open>A side list holds the orders of its security and side, oldest first (\<open>orders\<close> has
  the newest order at its front).\<close>

definition wf_long :: "OrderCache \<Rightarrow> bool" where
  "wf_long c =
     (\<forall>s. subscript (securityLongOrdersIndex c) s [] =
            filter (\<lambda>a. securityId (deref (heap c) a) = s \<and> isBuySide (deref (heap c) a))
              (rev (orders c)))"

definition wf_short :: "OrderCache \<Rightarrow> bool" where
  "wf_short c =
     (\<forall>s. subscript (securityShortOrdersIndex c) s [] =
            filter (\<lambda>a. securityId (deref (heap c) a) = s \<and> \<not> isBuySide (deref (heap c) a))
              (rev (orders c)))"

definition wf :: "OrderCache \<Rightarrow> bool" where
  "wf c = (wf_store c \<and> wf_index c \<and> wf_user c \<and> wf_security c \<and> wf_long c \<and> wf_short c)"

section \<open>Specification-level functions\<close>

text \<open>The orders a client expects to be live after a sequence of calls, oldest first.\<close>

fun liveStep :: "operation \<Rightarrow> Order list \<Rightarrow> Order list" where
  "liveStep (AddOrder ord) xs =
     (if orderId ord \<in> orderId ` set xs then xs else xs @ [ord])"
| "liveStep (CancelOrder ordId) xs = filter (\<lambda>x. orderId x \<noteq> ordId) xs"
| "liveStep (CancelOrdersForUser usr) xs = filter (\<lambda>x. user x \<noteq> usr) xs"
| "liveStep (CancelOrdersForSecIdWithMinimumQty secId minQty) xs =
     filter (\<lambda>x. \<not> (securityId x = secId \<and> minQty \<le> qty x)) xs"
| "liveStep (GetMatchingSizeForSecurity secId) xs = xs"
| "liveStep (SetMultiThread v) xs = xs"

definition liveOrders :: "operation list \<Rightarrow> Order list" where
  "liveOrders ops = fold liveStep ops []"

text \<open>The key an operation adds to the by-user and to the by-security map.\<close>

fun newUserKey :: "operation \<Rightarrow> OrderCache \<Rightarrow> string set" where
  "newUserKey (AddOrder ord) c = (if exists_order (orderId ord) c then {} else {user ord})"
| "newUserKey opn c = {}"

fun newSecurityKey :: "operation \<Rightarrow> OrderCache \<Rightarrow> string set" where
  "newSecurityKey (AddOrder ord) c = (if exists_order (orderId ord) c then {} else {securityId ord})"
| "newSecurityKey opn c = {}"

text \<open>The matcher as section 4.3 of the specification words it, on order values: the
  subject order, the candidates of the opposite side in insertion order; the result is
  the subject, the candidates and the running match count.\<close>

fun spec_match :: "Order \<Rightarrow> Order list \<Rightarrow> Order \<times> Order list \<times> u32" where
  "spec_match ord [] = (ord, [], 0)"
| "spec_match ord (x # xs) =
     (if isFilled x then (let (ord', xs', t) = spec_match ord xs in (ord', x # xs', t))
      else if company x = company ord
      then (let (ord', xs', t) = spec_match ord xs in (ord', x # xs', t))
      else
        let m = min (workingQty ord) (workingQty x)
        in if m = 0 then (let (ord', xs', t) = spec_match ord xs in (ord', x # xs', t))
           else
             let ord1 = fillLots m ord; x1 = fillLots m x
             in if isFilled ord1 then (ord1, x1 # xs, m)
                else (let (ord', xs', t) = spec_match ord1 xs in (ord', x1 # xs', m + t)))"

text \<open>One pairing of the subject with one candidate.\<close>

definition pairUp :: "Order \<Rightarrow> Order \<Rightarrow> Order \<times> Order \<times> u32" where
  "pairUp ord x =
     (if isFilled x \<or> company x = company ord then (ord, x, 0)
      else let m = min (workingQty ord) (workingQty x)
           in if m = 0 then (ord, x, 0) else (fillLots m ord, fillLots m x, m))"

text \<open>The lazy query on order values: every buy order, in insertion order, is matched
  against the sell side.\<close>

fun spec_match_all :: "Order list \<Rightarrow> Order list \<Rightarrow> Order list \<times> Order list \<times> u32" where
  "spec_match_all [] ss = ([], ss, 0)"
| "spec_match_all (b # bs) ss =
     (let (b', ss1, t1) = spec_match b ss; (bs', ss2, t2) = spec_match_all bs ss1
      in (b' # bs', ss2, t1 + t2))"


subsection \<open>The two matching modes side by side\<close>

text \<open>The buy side and the sell side of a security as order values, oldest first.\<close>

definition buys :: "string \<Rightarrow> OrderCache \<Rightarrow> Order list" where
  "buys s c = map (deref (heap c)) (subscript (securityLongOrdersIndex c) s [])"

definition sells :: "string \<Rightarrow> OrderCache \<Rightarrow> Order list" where
  "sells s c = map (deref (heap c)) (subscript (securityShortOrdersIndex c) s [])"

text \<open>The securities a sequence of calls queries, in call order, and the queries of one
  security.\<close>

fun queried :: "operation list \<Rightarrow> string list" where
  "queried [] = []"
| "queried (GetMatchingSizeForSecurity secId # ops) = secId # queried ops"
| "queried (opn # ops) = queried ops"

fun isQueryOf :: "string \<Rightarrow> operation \<Rightarrow> bool" where
  "isQueryOf s (GetMatchingSizeForSecurity secId) = (secId = s)"
| "isQueryOf s opn = False"

text \<open>The calls that cancel, and the orders a call takes out of the cache (lemma
  \<open>cancel_step\<close> below: a cancelling call leaves exactly the orders that it does not
  remove).\<close>

fun isCancel :: "operation \<Rightarrow> bool" where
  "isCancel (CancelOrder ordId) = True"
| "isCancel (CancelOrdersForUser usr) = True"
| "isCancel (CancelOrdersForSecIdWithMinimumQty secId minQty) = True"
| "isCancel opn = False"

fun removes :: "operation \<Rightarrow> Order \<Rightarrow> bool" where
  "removes (CancelOrder ordId) x = (orderId x = ordId)"
| "removes (CancelOrdersForUser usr) x = (user x = usr)"
| "removes (CancelOrdersForSecIdWithMinimumQty secId minQty) x =
     (securityId x = secId \<and> minQty \<le> qty x)"
| "removes opn x = False"

text \<open>
  What eager mode returned from the last query of security \<open>s\<close> in a sequence of calls
  that starts in the eager cache \<open>c\<close>; \<open>v\<close> when \<open>s\<close> is not queried.
\<close>

fun lastAnswer :: "string \<Rightarrow> operation list \<Rightarrow> OrderCache \<Rightarrow> u32 \<Rightarrow> u32" where
  "lastAnswer s [] c v = v"
| "lastAnswer s (opn # ops) c v =
     lastAnswer s ops (step True opn c)
       (if isQueryOf s opn then fst (getMatchingSizeForSecurity True s c) else v)"

text \<open>
  Every query of security \<open>s\<close> in a sequence of calls that starts in the lazy cache \<open>c\<close>
  takes the single-thread branch of \<^verbatim>\<open>getMatchingSizeForSecurity\<close>.
\<close>

fun singleThreadQueries :: "string \<Rightarrow> operation list \<Rightarrow> OrderCache \<Rightarrow> bool" where
  "singleThreadQueries s [] c = True"
| "singleThreadQueries s (opn # ops) c =
     ((isQueryOf s opn \<longrightarrow> \<not> multiThread c \<or> size_cache c < 2)
      \<and> singleThreadQueries s ops (step False opn c))"

text \<open>
  Every order of security \<open>s\<close> that a call of the sequence removes from the eager cache
  \<open>ce\<close> is in the lazy cache \<open>cl\<close> with the same working quantity: eager mode has matched
  no lot of it that lazy mode has not matched as well.
\<close>

fun cancelsAlike :: "string \<Rightarrow> operation list \<Rightarrow> OrderCache \<Rightarrow> OrderCache \<Rightarrow> bool" where
  "cancelsAlike s [] ce cl = True"
| "cancelsAlike s (opn # ops) ce cl =
     ((\<forall>x \<in> set (getAllOrders ce). securityId x = s \<and> removes opn x \<longrightarrow> x \<in> set (getAllOrders cl))
      \<and> cancelsAlike s ops (step True opn ce) (step False opn cl))"

text \<open>The second order is the first one with some more lots filled.\<close>

definition fills :: "Order \<Rightarrow> Order \<Rightarrow> bool" where
  "fills x y = (static y = static x \<and> workingQty y \<le> workingQty x)"

text \<open>The orders outside \<open>P\<close> are the same on both sides.\<close>

definition untouched :: "(Order \<Rightarrow> bool) \<Rightarrow> Order \<Rightarrow> Order \<Rightarrow> bool" where
  "untouched P x y = (\<not> P x \<longrightarrow> y = x)"

text \<open>Two orders of opposite sides have nothing left to trade with each other.\<close>

definition quiet :: "Order \<Rightarrow> Order \<Rightarrow> bool" where
  "quiet b s = (isFilled b \<or> isFilled s \<or> company s = company b)"

text \<open>The second order is of the same company as the first and filled if the first is.\<close>

definition later :: "Order \<Rightarrow> Order \<Rightarrow> bool" where
  "later x y = (company y = company x \<and> (isFilled x \<longrightarrow> isFilled y))"

text \<open>
  The lazy cache \<open>cl\<close> is the eager cache \<open>ce\<close> with part of the matching of security \<open>s\<close>
  still to be done: matching every buy order of \<open>s\<close> in \<open>cl\<close> against its sell side turns
  the two sides into those of \<open>ce\<close> and yields what the match cache of \<open>cl\<close> lacks.
\<close>

definition pending :: "string \<Rightarrow> OrderCache \<Rightarrow> OrderCache \<Rightarrow> bool" where
  "pending s ce cl =
     (spec_match_all (buys s cl) (sells s cl) =
        (buys s ce, sells s ce, getMatchedQuantityInCache s ce - getMatchedQuantityInCache s cl)
      \<and> (securityOrdersIndex ce s = None \<longrightarrow>
           getMatchedQuantityInCache s ce = 0 \<and> getMatchedQuantityInCache s cl = 0))"

section \<open>Lemmas about the model\<close>

subsection \<open>Containers and the store\<close>

lemma subscript_simps [simp]:
  "m k = None \<Longrightarrow> subscript m k d = d"
  "m k = Some v \<Longrightarrow> subscript m k d = v"
  by (simp_all add: subscript_def)

lemma subscript_upd [simp]:
  "subscript (m(k \<mapsto> v)) k' d = (if k' = k then v else subscript m k' d)"
  by (simp add: subscript_def)

lemma subscript_touch [simp]: "subscript (touch m k d) k' d = subscript m k' d"
  by (simp add: subscript_def touch_def split: option.splits)

lemma subscript_empty [simp]: "subscript Map.empty k d = d"
  by (simp add: subscript_def)

lemma same_static_refl [simp]: "same_static h h"
  by (simp add: same_static_def)

lemma same_static_trans: "same_static h h' \<Longrightarrow> same_static h' h'' \<Longrightarrow> same_static h h''"
  by (simp add: same_static_def)

lemma same_static_dom: "same_static h h' \<Longrightarrow> dom h' = dom h"
  unfolding same_static_def dom_def
  by (metis (no_types, opaque_lifting) option.map_disc_iff)

lemma same_static_deref:
  assumes "same_static h h'"
  shows "static (deref h' a) = static (deref h a)"
proof (cases "h a")
  case None
  with assms have "h' a = None" by (metis same_static_def option.map_disc_iff)
  with None show ?thesis by (simp add: deref_def)
next
  case (Some x)
  with assms obtain y where "h' a = Some y" "static y = static x"
    unfolding same_static_def by (metis option.simps(9) option.map_disc_iff option.exhaust_sel option.sel option.map_sel)
  with Some show ?thesis by (simp add: deref_def)
qed

lemma static_fields:
  assumes "static x = static y"
  shows "orderId x = orderId y" "securityId x = securityId y" "side x = side y" "qty x = qty y"
        "user x = user y" "company x = company y" "isBuySide x = isBuySide y"
proof -
  have "orderId (static x) = orderId (static y)" "securityId (static x) = securityId (static y)"
    "side (static x) = side (static y)" "qty (static x) = qty (static y)"
    "user (static x) = user (static y)" "company (static x) = company (static y)"
    using assms by simp_all
  then show "orderId x = orderId y" "securityId x = securityId y" "side x = side y" "qty x = qty y"
        "user x = user y" "company x = company y"
    by (simp_all add: static_def)
  then show "isBuySide x = isBuySide y" by (simp add: isBuySide_def)
qed

lemmas same_static_fields = static_fields [OF same_static_deref]

lemma static_fillLots [simp]: "static (fillLots n ord) = static ord"
  by (simp add: static_def fillLots_def)

subsection \<open>The matcher keeps the cache well formed\<close>

lemma same_static_upd_fill:
  "h a \<noteq> None \<Longrightarrow> same_static h (h(a \<mapsto> fillLots q (deref h a)))"
  by (auto simp: same_static_def deref_def)

lemma matchLoop_same_static:
  "a \<in> dom h \<Longrightarrow> set xs \<subseteq> dom h \<Longrightarrow> same_static h (fst (matchLoop a xs h m))"
proof (induction xs arbitrary: h m)
  case Nil
  then show ?case by simp
next
  case (Cons x xs)
  let ?q = "min (workingQty (deref h a)) (workingQty (deref h x))"
  let ?h1 = "h(a \<mapsto> fillLots ?q (deref h a))"
  let ?h2 = "?h1(x \<mapsto> fillLots ?q (deref ?h1 x))"
  from Cons.prems have a: "h a \<noteq> None" and x: "h x \<noteq> None" by auto
  have s1: "same_static h ?h1" using a by (rule same_static_upd_fill)
  have "?h1 x \<noteq> None" using x by simp
  then have s2: "same_static ?h1 ?h2" by (rule same_static_upd_fill)
  have s12: "same_static h ?h2" using s1 s2 by (rule same_static_trans)
  have d2: "dom ?h2 = dom h" using same_static_dom [OF s12] .
  have ih2: "same_static ?h2 (fst (matchLoop a xs ?h2 (m + ?q)))"
    using Cons.prems d2 by (intro Cons.IH) auto
  have ih0: "same_static h (fst (matchLoop a xs h m))"
    using Cons.prems by (intro Cons.IH) auto
  show ?case
    using ih0 s12 same_static_trans [OF s12 ih2]
    by (simp add: Let_def)
qed

lemma wf_cong:
  assumes "wf c"
    and "orders c' = orders c"
    and "same_static (heap c) (heap c')"
    and "orderIndex c' = orderIndex c"
    and "\<And>u. subscript (userOrdersIndex c') u [] = subscript (userOrdersIndex c) u []"
    and "\<And>s. subscript (securityOrdersIndex c') s [] = subscript (securityOrdersIndex c) s []"
    and "\<And>s. subscript (securityLongOrdersIndex c') s [] = subscript (securityLongOrdersIndex c) s []"
    and "\<And>s. subscript (securityShortOrdersIndex c') s [] = subscript (securityShortOrdersIndex c) s []"
  shows "wf c'"
proof -
  note f = same_static_fields [OF assms(3)]
  have "wf_store c'"
    using assms(1,2) same_static_dom [OF assms(3)] by (simp add: wf_def wf_store_def)
  moreover have "wf_index c'"
    using assms(1,2,4) by (simp add: wf_def wf_index_def f)
  moreover have "wf_user c'"
    using assms(1,2,5) by (simp add: wf_def wf_user_def f)
  moreover have "wf_security c'"
    using assms(1,2,6) by (simp add: wf_def wf_security_def f)
  moreover have "wf_long c'"
    using assms(1,2,7) by (simp add: wf_def wf_long_def f)
  moreover have "wf_short c'"
    using assms(1,2,8) by (simp add: wf_def wf_short_def f)
  ultimately show ?thesis by (simp add: wf_def)
qed

lemma wf_long_list:
  "wf c \<Longrightarrow> subscript (securityLongOrdersIndex c) s [] =
     filter (\<lambda>a. securityId (deref (heap c) a) = s \<and> isBuySide (deref (heap c) a)) (rev (orders c))"
  by (simp add: wf_def wf_long_def)

lemma wf_short_list:
  "wf c \<Longrightarrow> subscript (securityShortOrdersIndex c) s [] =
     filter (\<lambda>a. securityId (deref (heap c) a) = s \<and> \<not> isBuySide (deref (heap c) a)) (rev (orders c))"
  by (simp add: wf_def wf_short_def)

lemma wf_long_distinct_set:
  assumes "wf c"
  shows "distinct (subscript (securityLongOrdersIndex c) s [])"
    and "set (subscript (securityLongOrdersIndex c) s []) =
           {a \<in> set (orders c). securityId (deref (heap c) a) = s \<and> isBuySide (deref (heap c) a)}"
  using assms by (auto simp: wf_long_list wf_def wf_store_def)

lemma wf_short_distinct_set:
  assumes "wf c"
  shows "distinct (subscript (securityShortOrdersIndex c) s [])"
    and "set (subscript (securityShortOrdersIndex c) s []) =
           {a \<in> set (orders c). securityId (deref (heap c) a) = s \<and> \<not> isBuySide (deref (heap c) a)}"
  using assms by (auto simp: wf_short_list wf_def wf_store_def)

lemma wf_long_dom: "wf c \<Longrightarrow> set (subscript (securityLongOrdersIndex c) s []) \<subseteq> dom (heap c)"
  by (auto simp: wf_long_distinct_set wf_def wf_store_def)

lemma wf_short_dom: "wf c \<Longrightarrow> set (subscript (securityShortOrdersIndex c) s []) \<subseteq> dom (heap c)"
  by (auto simp: wf_short_distinct_set wf_def wf_store_def)

lemma matchOrderInCache_fields [simp]:
  "orders (snd (matchOrderInCache a c)) = orders c"
  "orderIndex (snd (matchOrderInCache a c)) = orderIndex c"
  "userOrdersIndex (snd (matchOrderInCache a c)) = userOrdersIndex c"
  "securityOrdersIndex (snd (matchOrderInCache a c)) = securityOrdersIndex c"
  "multiThread (snd (matchOrderInCache a c)) = multiThread c"
  "subscript (securityLongOrdersIndex (snd (matchOrderInCache a c))) s [] = subscript (securityLongOrdersIndex c) s []"
  "subscript (securityShortOrdersIndex (snd (matchOrderInCache a c))) s [] = subscript (securityShortOrdersIndex c) s []"
  by (simp_all add: matchOrderInCache_def Let_def split: prod.splits)

lemma matchOrderInCache_same_static:
  assumes "wf c" "a \<in> set (orders c)"
  shows "same_static (heap c) (heap (snd (matchOrderInCache a c)))"
proof -
  have a: "a \<in> dom (heap c)" using assms by (simp add: wf_def wf_store_def)
  have "same_static (heap c) (fst (matchLoop a (subscript (securityShortOrdersIndex c) s []) (heap c) 0))" for s
    using a wf_short_dom [OF assms(1)] by (rule matchLoop_same_static)
  moreover have "same_static (heap c) (fst (matchLoop a (subscript (securityLongOrdersIndex c) s []) (heap c) 0))" for s
    using a wf_long_dom [OF assms(1)] by (rule matchLoop_same_static)
  ultimately show ?thesis
    by (simp add: matchOrderInCache_def Let_def split: prod.splits)
      (metis fst_conv)
qed

lemma wf_matchOrderInCache:
  assumes "wf c" "a \<in> set (orders c)"
  shows "wf (snd (matchOrderInCache a c))"
  using assms(1) by (rule wf_cong) (simp_all add: matchOrderInCache_same_static [OF assms])

subsection \<open>Insertion keeps the cache well formed\<close>

lemma le_foldr_max: "a \<in> set xs \<Longrightarrow> a \<le> foldr max xs (0::nat)"
  by (induction xs) auto

lemma newPtr_fresh: "newPtr c \<notin> set (orders c)"
  using le_foldr_max [of "newPtr c" "orders c"] by (auto simp: newPtr_def)

lemma insertOrder_fields [simp]:
  "fst (insertOrder ord c) = newPtr c"
  "orders (snd (insertOrder ord c)) = newPtr c # orders c"
  "heap (snd (insertOrder ord c)) = (heap c)(newPtr c \<mapsto> ord)"
  "orderIndex (snd (insertOrder ord c)) = index_insert (orderId ord) (newPtr c) (orderIndex c)"
  "userOrdersIndex (snd (insertOrder ord c)) =
     (userOrdersIndex c)(user ord \<mapsto> List.insert (orderId ord) (subscript (userOrdersIndex c) (user ord) []))"
  "securityOrdersIndex (snd (insertOrder ord c)) =
     (securityOrdersIndex c)(securityId ord \<mapsto>
        List.insert (orderId ord) (subscript (securityOrdersIndex c) (securityId ord) []))"
  "securityLongOrdersIndex (snd (insertOrder ord c)) =
     (if isBuySide ord
      then (securityLongOrdersIndex c)(securityId ord \<mapsto>
             subscript (securityLongOrdersIndex c) (securityId ord) [] @ [newPtr c])
      else securityLongOrdersIndex c)"
  "securityShortOrdersIndex (snd (insertOrder ord c)) =
     (if isBuySide ord then securityShortOrdersIndex c
      else (securityShortOrdersIndex c)(securityId ord \<mapsto>
             subscript (securityShortOrdersIndex c) (securityId ord) [] @ [newPtr c]))"
  "matchedQuantity (snd (insertOrder ord c)) = matchedQuantity c"
  "multiThread (snd (insertOrder ord c)) = multiThread c"
  by (simp_all add: insertOrder_def Let_def)

lemma deref_upd [simp]: "deref (h(p \<mapsto> ord)) a = (if a = p then ord else deref h a)"
  by (simp add: deref_def)

lemma deref_del [simp]: "a \<noteq> p \<Longrightarrow> deref (h(p := None)) a = deref h a"
  by (simp add: deref_def)

lemma store_insert_image:
  assumes "p \<notin> set xs"
  shows "{f (deref (h(p \<mapsto> ord)) a) |a. a \<in> set (p # xs) \<and> P (deref (h(p \<mapsto> ord)) a)} =
         (if P ord then {f ord} else {}) \<union> {f (deref h a) |a. a \<in> set xs \<and> P (deref h a)}"
  using assms by (auto; metis)

lemma wf_insertOrder:
  assumes wf: "wf c" and new: "\<not> exists_order (orderId ord) c"
  shows "wf (snd (insertOrder ord c))"
proof -
  let ?p = "newPtr c"
  let ?c = "snd (insertOrder ord c)"
  have fresh: "?p \<notin> set (orders c)" by (rule newPtr_fresh)
  have none: "map_of (orderIndex c) (orderId ord) = None"
    using new by (simp add: exists_order_def)
  have noid: "a \<in> set (orders c) \<Longrightarrow> orderId (deref (heap c) a) \<noteq> orderId ord" for a
    using wf none by (auto simp: wf_def wf_index_def)
  have ne: "a \<in> set (orders c) \<Longrightarrow> a \<noteq> ?p" for a using fresh by auto
  have "wf_store ?c"
    using wf fresh by (auto simp: wf_def wf_store_def)
  moreover have "wf_index ?c"
  proof -
    have "orderId ord \<notin> fst ` set (orderIndex c)"
      using none by (simp add: map_of_eq_None_iff)
    then have d: "distinct (map fst (orderIndex ?c))"
      using wf none by (simp add: wf_def wf_index_def index_insert_def)
    have "map_of (orderIndex ?c) i = Some a \<longleftrightarrow>
            a \<in> set (orders ?c) \<and> orderId (deref (heap ?c) a) = i" for i a
      using wf none fresh noid [of a]
      by (auto simp: wf_def wf_index_def index_insert_def)
    with d show ?thesis by (simp add: wf_index_def)
  qed
  moreover have "wf_user ?c"
    unfolding wf_user_def
  proof (intro allI conjI)
    fix u
    show "distinct (subscript (userOrdersIndex ?c) u [])"
      using wf by (simp add: wf_def wf_user_def)
    show "set (subscript (userOrdersIndex ?c) u []) =
            {orderId (deref (heap ?c) a) |a. a \<in> set (orders ?c) \<and> user (deref (heap ?c) a) = u}"
      unfolding insertOrder_fields
        store_insert_image [where f = orderId and P = "\<lambda>x. user x = u", OF fresh]
      using wf by (simp add: wf_def wf_user_def)
  qed
  moreover have "wf_security ?c"
    unfolding wf_security_def
  proof (intro allI conjI)
    fix s
    show "distinct (subscript (securityOrdersIndex ?c) s [])"
      using wf by (simp add: wf_def wf_security_def)
    show "set (subscript (securityOrdersIndex ?c) s []) =
            {orderId (deref (heap ?c) a) |a. a \<in> set (orders ?c) \<and> securityId (deref (heap ?c) a) = s}"
      unfolding insertOrder_fields
        store_insert_image [where f = orderId and P = "\<lambda>x. securityId x = s", OF fresh]
      using wf by (simp add: wf_def wf_security_def)
  qed
  moreover have "wf_long ?c"
    unfolding wf_long_def
  proof
    fix s
    have "filter (\<lambda>a. securityId (deref (heap ?c) a) = s \<and> isBuySide (deref (heap ?c) a)) (rev (orders c))
          = filter (\<lambda>a. securityId (deref (heap c) a) = s \<and> isBuySide (deref (heap c) a)) (rev (orders c))"
      using ne by (intro filter_cong) auto
    then show "subscript (securityLongOrdersIndex ?c) s [] =
            filter (\<lambda>a. securityId (deref (heap ?c) a) = s \<and> isBuySide (deref (heap ?c) a))
              (rev (orders ?c))"
      using wf_long_list [OF wf] by simp
  qed
  moreover have "wf_short ?c"
    unfolding wf_short_def
  proof
    fix s
    have "filter (\<lambda>a. securityId (deref (heap ?c) a) = s \<and> \<not> isBuySide (deref (heap ?c) a)) (rev (orders c))
          = filter (\<lambda>a. securityId (deref (heap c) a) = s \<and> \<not> isBuySide (deref (heap c) a)) (rev (orders c))"
      using ne by (intro filter_cong) auto
    then show "subscript (securityShortOrdersIndex ?c) s [] =
            filter (\<lambda>a. securityId (deref (heap ?c) a) = s \<and> \<not> isBuySide (deref (heap ?c) a))
              (rev (orders ?c))"
      using wf_short_list [OF wf] by simp
  qed
  ultimately show ?thesis by (simp add: wf_def)
qed

lemma wf_emptyCache: "wf emptyCache"
  by (simp add: wf_def wf_store_def wf_index_def wf_user_def wf_security_def wf_long_def
      wf_short_def emptyCache_def)

lemma wf_addOrder:
  assumes "wf c"
  shows "wf (addOrder cached ord c)"
proof (cases "exists_order (orderId ord) c")
  case True
  then show ?thesis using assms by (simp add: addOrder_def)
next
  case False
  have w: "wf (snd (insertOrder ord c))" using assms False by (rule wf_insertOrder)
  have "newPtr c \<in> set (orders (snd (insertOrder ord c)))" by simp
  from wf_matchOrderInCache [OF w this] w False show ?thesis
    by (simp add: addOrder_def split: prod.splits)
      (metis fst_conv insertOrder_fields(1) snd_conv)
qed

subsection \<open>The effect of one cancellation\<close>

lemma map_of_index_erase [simp]:
  "map_of (index_erase k al) k' = (if k' = k then None else map_of al k')"
  by (induction al) (auto simp: index_erase_def)

lemma distinct_index_erase: "distinct (map fst al) \<Longrightarrow> distinct (map fst (index_erase k al))"
  by (simp add: index_erase_def distinct_map_filter)

lemma remove1_filter_ne: "distinct xs \<Longrightarrow> remove1 p xs = filter (\<lambda>a. a \<noteq> p) xs"
proof -
  have "(\<lambda>a. a \<noteq> p) = (\<lambda>a. p \<noteq> a)" by auto
  then show "distinct xs \<Longrightarrow> ?thesis"
    by (simp add: distinct_remove1_removeAll removeAll_filter_not_eq)
qed

lemma erase_remove_if_one:
  assumes "distinct xs" "p \<in> set xs" "\<And>x. x \<in> set xs \<Longrightarrow> P x \<longleftrightarrow> x = p"
  shows "erase_remove_if P xs = remove1 p xs"
proof -
  have f: "filter (\<lambda>x. \<not> P x) xs = filter (\<lambda>x. x \<noteq> p) xs"
    using assms(3) by (intro filter_cong) auto
  have r: "filter (\<lambda>x. x \<noteq> p) xs = remove1 p xs"
    using assms(1) by (simp add: distinct_remove1_removeAll removeAll_filter_not_eq) metis
  have "length (remove1 p xs) = length xs - 1"
    using assms(2) by (simp add: length_remove1)
  moreover have "length xs > 0" using assms(2) by (cases xs) auto
  ultimately have "length (remove1 p xs) \<noteq> length xs"
    "length xs \<le> Suc (length (remove1 p xs))" by arith+
  then show ?thesis
    by (simp add: erase_remove_if_def f r Let_def)
qed

lemma wf_id_inj:
  assumes "wf c" "a \<in> set (orders c)" "b \<in> set (orders c)"
    "orderId (deref (heap c) a) = orderId (deref (heap c) b)"
  shows "a = b"
proof -
  from assms have "map_of (orderIndex c) (orderId (deref (heap c) b)) = Some a"
    "map_of (orderIndex c) (orderId (deref (heap c) b)) = Some b"
    by (simp_all add: wf_def wf_index_def)
  then show ?thesis by simp
qed

lemma wf_index_Some:
  "wf c \<Longrightarrow> map_of (orderIndex c) i = Some p \<longleftrightarrow> p \<in> set (orders c) \<and> orderId (deref (heap c) p) = i"
  by (simp add: wf_def wf_index_def)

lemma cancelSingleOrder_skip:
  "map_of (orderIndex c) i = None \<Longrightarrow> cancelSingleOrder i minQty c = c"
  "map_of (orderIndex c) i = Some p \<Longrightarrow> minQty > 0 \<and> qty (deref (heap c) p) < minQty
     \<Longrightarrow> cancelSingleOrder i minQty c = c"
  by (simp_all add: cancelSingleOrder_def)

lemma cancelSingleOrder_fields:
  assumes "map_of (orderIndex c) i = Some p" "\<not> (minQty > 0 \<and> qty (deref (heap c) p) < minQty)"
  shows
  "orders (cancelSingleOrder i minQty c) = remove1 p (orders c)"
  "heap (cancelSingleOrder i minQty c) = (heap c)(p := None)"
  "orderIndex (cancelSingleOrder i minQty c) = index_erase i (orderIndex c)"
  "userOrdersIndex (cancelSingleOrder i minQty c) =
     (userOrdersIndex c)(user (deref (heap c) p) \<mapsto>
        removeAll i (subscript (userOrdersIndex c) (user (deref (heap c) p)) []))"
  "securityOrdersIndex (cancelSingleOrder i minQty c) =
     (securityOrdersIndex c)(securityId (deref (heap c) p) \<mapsto>
        removeAll i (subscript (securityOrdersIndex c) (securityId (deref (heap c) p)) []))"
  "securityLongOrdersIndex (cancelSingleOrder i minQty c) =
     (if isBuySide (deref (heap c) p)
      then (securityLongOrdersIndex c)(securityId (deref (heap c) p) \<mapsto>
             erase_remove_if (\<lambda>q. orderId (deref (heap c) q) = i)
               (subscript (securityLongOrdersIndex c) (securityId (deref (heap c) p)) []))
      else securityLongOrdersIndex c)"
  "securityShortOrdersIndex (cancelSingleOrder i minQty c) =
     (if isBuySide (deref (heap c) p) then securityShortOrdersIndex c
      else (securityShortOrdersIndex c)(securityId (deref (heap c) p) \<mapsto>
             erase_remove_if (\<lambda>q. orderId (deref (heap c) q) = i)
               (subscript (securityShortOrdersIndex c) (securityId (deref (heap c) p)) [])))"
  "matchedQuantity (cancelSingleOrder i minQty c) = matchedQuantity c"
  "multiThread (cancelSingleOrder i minQty c) = multiThread c"
  using assms by (auto simp: cancelSingleOrder_def Let_def)

lemma wf_side_list_one:
  assumes wf: "wf c" and p: "p \<in> set (orders c)"
  shows "isBuySide (deref (heap c) p) \<Longrightarrow>
           erase_remove_if (\<lambda>q. orderId (deref (heap c) q) = orderId (deref (heap c) p))
             (subscript (securityLongOrdersIndex c) (securityId (deref (heap c) p)) [])
           = remove1 p (subscript (securityLongOrdersIndex c) (securityId (deref (heap c) p)) [])"
    and "\<not> isBuySide (deref (heap c) p) \<Longrightarrow>
           erase_remove_if (\<lambda>q. orderId (deref (heap c) q) = orderId (deref (heap c) p))
             (subscript (securityShortOrdersIndex c) (securityId (deref (heap c) p)) [])
           = remove1 p (subscript (securityShortOrdersIndex c) (securityId (deref (heap c) p)) [])"
proof -
  let ?s = "securityId (deref (heap c) p)"
  {
    assume b: "isBuySide (deref (heap c) p)"
    let ?L = "subscript (securityLongOrdersIndex c) ?s []"
    have d: "distinct ?L" and s: "set ?L = {a \<in> set (orders c). securityId (deref (heap c) a) = ?s \<and> isBuySide (deref (heap c) a)}"
      using wf_long_distinct_set [OF wf] by simp_all
    have "p \<in> set ?L" using s p b by simp
    moreover have "x \<in> set ?L \<Longrightarrow> orderId (deref (heap c) x) = orderId (deref (heap c) p) \<longleftrightarrow> x = p" for x
      using s wf_id_inj [OF wf _ p] by auto
    ultimately show "erase_remove_if (\<lambda>q. orderId (deref (heap c) q) = orderId (deref (heap c) p)) ?L = remove1 p ?L"
      using d by (intro erase_remove_if_one) auto
  }
  {
    assume b: "\<not> isBuySide (deref (heap c) p)"
    let ?L = "subscript (securityShortOrdersIndex c) ?s []"
    have d: "distinct ?L" and s: "set ?L = {a \<in> set (orders c). securityId (deref (heap c) a) = ?s \<and> \<not> isBuySide (deref (heap c) a)}"
      using wf_short_distinct_set [OF wf] by simp_all
    have "p \<in> set ?L" using s p b by simp
    moreover have "x \<in> set ?L \<Longrightarrow> orderId (deref (heap c) x) = orderId (deref (heap c) p) \<longleftrightarrow> x = p" for x
      using s wf_id_inj [OF wf _ p] by auto
    ultimately show "erase_remove_if (\<lambda>q. orderId (deref (heap c) q) = orderId (deref (heap c) p)) ?L = remove1 p ?L"
      using d by (intro erase_remove_if_one) auto
  }
qed

subsection \<open>Cancellation keeps the cache well formed\<close>

lemma store_remove_image:
  assumes "distinct xs"
  shows "{f (deref (h(p := None)) a) |a. a \<in> set (remove1 p xs) \<and> P (deref (h(p := None)) a)} =
         {f (deref h a) |a. a \<in> set xs \<and> a \<noteq> p \<and> P (deref h a)}"
  using assms by (auto; metis deref_del)

lemma store_remove_Collect:
  assumes "distinct xs"
  shows "{a \<in> set (remove1 p xs). P (deref (h(p := None)) a)} =
         {a \<in> set xs. P (deref h a)} - {p}"
  using assms by auto

lemma ids_without:
  assumes "wf c" "p \<in> set (orders c)"
  shows "{orderId (deref (heap c) a) |a. a \<in> set (orders c) \<and> a \<noteq> p \<and> P (deref (heap c) a)} =
         {orderId (deref (heap c) a) |a. a \<in> set (orders c) \<and> P (deref (heap c) a)}
           - {orderId (deref (heap c) p)}"
  using wf_id_inj [OF assms(1) _ assms(2)] by auto

lemma wf_cancelSingleOrder:
  assumes wf: "wf c"
  shows "wf (cancelSingleOrder i minQty c)"
proof (cases "map_of (orderIndex c) i")
  case None
  then show ?thesis using wf by (simp add: cancelSingleOrder_skip)
next
  case (Some p)
  show ?thesis
  proof (cases "minQty > 0 \<and> qty (deref (heap c) p) < minQty")
    case True
    then show ?thesis using wf Some by (simp add: cancelSingleOrder_skip)
  next
    case False
    let ?c = "cancelSingleOrder i minQty c"
    let ?h = "heap c"
    note flds = cancelSingleOrder_fields [OF Some False]
    have p: "p \<in> set (orders c)" and pid: "orderId (deref ?h p) = i"
      using wf Some by (simp_all add: wf_index_Some)
    have dist: "distinct (orders c)" using wf by (simp add: wf_def wf_store_def)
    have "wf_store ?c"
      using wf p by (auto simp: flds wf_def wf_store_def)
    moreover have "wf_index ?c"
    proof -
      have "map_of (orderIndex ?c) j = Some a \<longleftrightarrow>
              a \<in> set (orders ?c) \<and> orderId (deref (heap ?c) a) = j" for j a
      proof (cases "a = p")
        case True
        then show ?thesis using wf p pid dist by (auto simp: flds wf_index_Some)
      next
        case False
        then show ?thesis using wf p pid dist wf_id_inj [OF wf _ p, of a]
          by (auto simp: flds wf_index_Some)
      qed
      moreover have "distinct (map fst (orderIndex ?c))"
        using wf by (simp add: flds distinct_index_erase wf_def wf_index_def)
      ultimately show ?thesis by (simp add: wf_index_def)
    qed
    moreover have "wf_user ?c"
      unfolding wf_user_def
    proof (intro allI conjI)
      fix u
      show "distinct (subscript (userOrdersIndex ?c) u [])"
        using wf by (simp add: flds wf_def wf_user_def distinct_removeAll)
      show "set (subscript (userOrdersIndex ?c) u []) =
              {orderId (deref (heap ?c) a) |a. a \<in> set (orders ?c) \<and> user (deref (heap ?c) a) = u}"
        unfolding flds store_remove_image [where f = orderId and P = "\<lambda>x. user x = u", OF dist]
          ids_without [where P = "\<lambda>x. user x = u", OF wf p]
        using wf pid ids_without [where P = "\<lambda>x. user x = u", OF wf p]
        by (auto simp: wf_def wf_user_def)
    qed
    moreover have "wf_security ?c"
      unfolding wf_security_def
    proof (intro allI conjI)
      fix s
      show "distinct (subscript (securityOrdersIndex ?c) s [])"
        using wf by (simp add: flds wf_def wf_security_def distinct_removeAll)
      show "set (subscript (securityOrdersIndex ?c) s []) =
              {orderId (deref (heap ?c) a) |a. a \<in> set (orders ?c) \<and> securityId (deref (heap ?c) a) = s}"
        unfolding flds store_remove_image [where f = orderId and P = "\<lambda>x. securityId x = s", OF dist]
          ids_without [where P = "\<lambda>x. securityId x = s", OF wf p]
        using wf pid ids_without [where P = "\<lambda>x. securityId x = s", OF wf p]
        by (auto simp: wf_def wf_security_def)
    qed
    moreover have "wf_long ?c"
      unfolding wf_long_def
    proof
      fix s
      let ?P = "\<lambda>a. securityId (deref ?h a) = s \<and> isBuySide (deref ?h a)"
      have keep: "filter (\<lambda>a. securityId (deref (heap ?c) a) = s \<and> isBuySide (deref (heap ?c) a))
                    (rev (orders ?c)) = filter (\<lambda>a. a \<noteq> p) (filter ?P (rev (orders c)))"
        unfolding flds(1,2) remove1_filter_ne [OF dist] rev_filter [symmetric] filter_filter
        by (rule arg_cong [where f = rev], rule filter_cong) auto
      show "subscript (securityLongOrdersIndex ?c) s [] =
              filter (\<lambda>a. securityId (deref (heap ?c) a) = s \<and> isBuySide (deref (heap ?c) a))
                (rev (orders ?c))"
      proof (cases "isBuySide (deref ?h p) \<and> s = securityId (deref ?h p)")
        case True
        then have "subscript (securityLongOrdersIndex ?c) s [] =
                     remove1 p (subscript (securityLongOrdersIndex c) s [])"
          using wf_side_list_one(1) [OF wf p] by (simp add: flds pid)
        also have "\<dots> = filter (\<lambda>a. a \<noteq> p) (subscript (securityLongOrdersIndex c) s [])"
          by (rule remove1_filter_ne) (rule wf_long_distinct_set [OF wf])
        finally show ?thesis by (simp add: keep wf_long_list [OF wf])
      next
        case False
        then have "subscript (securityLongOrdersIndex ?c) s [] = subscript (securityLongOrdersIndex c) s []"
          by (auto simp: flds)
        moreover have "filter (\<lambda>a. a \<noteq> p) (filter ?P (rev (orders c))) = filter ?P (rev (orders c))"
          unfolding filter_id_conv using False by auto
        ultimately show ?thesis by (simp add: keep wf_long_list [OF wf])
      qed
    qed
    moreover have "wf_short ?c"
      unfolding wf_short_def
    proof
      fix s
      let ?P = "\<lambda>a. securityId (deref ?h a) = s \<and> \<not> isBuySide (deref ?h a)"
      have keep: "filter (\<lambda>a. securityId (deref (heap ?c) a) = s \<and> \<not> isBuySide (deref (heap ?c) a))
                    (rev (orders ?c)) = filter (\<lambda>a. a \<noteq> p) (filter ?P (rev (orders c)))"
        unfolding flds(1,2) remove1_filter_ne [OF dist] rev_filter [symmetric] filter_filter
        by (rule arg_cong [where f = rev], rule filter_cong) auto
      show "subscript (securityShortOrdersIndex ?c) s [] =
              filter (\<lambda>a. securityId (deref (heap ?c) a) = s \<and> \<not> isBuySide (deref (heap ?c) a))
                (rev (orders ?c))"
      proof (cases "\<not> isBuySide (deref ?h p) \<and> s = securityId (deref ?h p)")
        case True
        then have "subscript (securityShortOrdersIndex ?c) s [] =
                     remove1 p (subscript (securityShortOrdersIndex c) s [])"
          using wf_side_list_one(2) [OF wf p] by (simp add: flds pid)
        also have "\<dots> = filter (\<lambda>a. a \<noteq> p) (subscript (securityShortOrdersIndex c) s [])"
          by (rule remove1_filter_ne) (rule wf_short_distinct_set [OF wf])
        finally show ?thesis by (simp add: keep wf_short_list [OF wf])
      next
        case False
        then have "subscript (securityShortOrdersIndex ?c) s [] = subscript (securityShortOrdersIndex c) s []"
          by (auto simp: flds)
        moreover have "filter (\<lambda>a. a \<noteq> p) (filter ?P (rev (orders c))) = filter ?P (rev (orders c))"
          unfolding filter_id_conv using False by auto
        ultimately show ?thesis by (simp add: keep wf_short_list [OF wf])
      qed
    qed
    ultimately show ?thesis by (simp add: wf_def)
  qed
qed

subsection \<open>Every reachable cache is well formed\<close>

lemma wf_cancelOrders: "wf c \<Longrightarrow> wf (cancelOrders ks minQty c)"
  unfolding cancelOrders_def
  by (induction ks arbitrary: c) (simp_all add: wf_cancelSingleOrder)

lemma wf_touch_long:
  "wf c \<Longrightarrow> wf (c\<lparr>securityLongOrdersIndex := touch (securityLongOrdersIndex c) s []\<rparr>)"
  by (erule wf_cong) simp_all

lemma matchAll_invariant:
  assumes "wf c" "set ps \<subseteq> set (orders c)"
  shows "wf (snd (matchAll ps q0 c))
       \<and> orders (snd (matchAll ps q0 c)) = orders c
       \<and> same_static (heap c) (heap (snd (matchAll ps q0 c)))"
  using assms
proof (induction ps arbitrary: q0 c)
  case Nil
  then show ?case by simp
next
  case (Cons p ps)
  obtain m c1 where m: "matchOrderInCache p c = (m, c1)" by (cases "matchOrderInCache p c")
  have c1: "c1 = snd (matchOrderInCache p c)" using m by simp
  have p: "p \<in> set (orders c)" using Cons.prems by simp
  have w1: "wf c1" unfolding c1 using Cons.prems(1) p by (rule wf_matchOrderInCache)
  have o1: "orders c1 = orders c" unfolding c1 by simp
  have s1: "same_static (heap c) (heap c1)"
    unfolding c1 using Cons.prems(1) p by (rule matchOrderInCache_same_static)
  from Cons.IH [OF w1, of "q0 + m"] Cons.prems o1 same_static_trans [OF s1] show ?case
    by (simp add: m)
qed

lemma static_leave [simp]: "static (leave n ord) = static ord"
  by (simp add: static_def leave_def)

lemma runPool_fields [simp]:
  "orders (runPool left s c) = orders c"
  "orderIndex (runPool left s c) = orderIndex c"
  "userOrdersIndex (runPool left s c) = userOrdersIndex c"
  "securityOrdersIndex (runPool left s c) = securityOrdersIndex c"
  "securityLongOrdersIndex (runPool left s c) = securityLongOrdersIndex c"
  "multiThread (runPool left s c) = multiThread c"
  "subscript (securityShortOrdersIndex (runPool left s c)) k [] =
     subscript (securityShortOrdersIndex c) k []"
  by (simp_all add: runPool_def Let_def)

lemma runPool_same_static: "same_static (heap c) (heap (runPool left s c))"
  by (simp add: runPool_def Let_def same_static_def option.map_comp comp_def)

lemma wf_runPool: "wf c \<Longrightarrow> wf (runPool left s c)"
  by (erule wf_cong) (simp_all add: runPool_same_static)

lemma matchAll_preserve:
  assumes "\<And>p c. f (snd (matchOrderInCache p c)) = f c"
  shows "f (snd (matchAll ps q0 c)) = f c"
proof (induction ps arbitrary: q0 c)
  case Nil
  then show ?case by simp
next
  case (Cons p ps)
  obtain m c1 where m: "matchOrderInCache p c = (m, c1)" by (cases "matchOrderInCache p c")
  have "f c1 = f c" using assms [of p c] m by simp
  with Cons [of "q0 + m" c1] show ?case by (simp add: m)
qed

lemma wf_long_orders:
  "wf c \<Longrightarrow> set (subscript (securityLongOrdersIndex c) s []) \<subseteq> set (orders c)"
  by (auto simp: wf_long_distinct_set)

lemma wf_short_orders:
  "wf c \<Longrightarrow> set (subscript (securityShortOrdersIndex c) s []) \<subseteq> set (orders c)"
  by (auto simp: wf_short_distinct_set)

lemma getMatchingSizeForSecurity_invariant:
  assumes "wf c"
  shows "wf (snd (getMatchingSizeForSecurity cached s c))
       \<and> orders (snd (getMatchingSizeForSecurity cached s c)) = orders c
       \<and> same_static (heap c) (heap (snd (getMatchingSizeForSecurity cached s c)))"
proof -
  let ?c1 = "c\<lparr>securityLongOrdersIndex := touch (securityLongOrdersIndex c) s []\<rparr>"
  let ?L = "subscript (securityLongOrdersIndex c) s []"
  have w1: "wf ?c1" using assms by (rule wf_touch_long)
  have sub: "set ?L \<subseteq> set (orders ?c1)" using wf_long_orders [OF assms] by simp
  show ?thesis
    using assms matchAll_invariant [OF w1 sub, of 0] wf_runPool [OF w1, of "threadPool ?c1" s]
      runPool_same_static [of ?c1 "threadPool ?c1" s]
    by (simp add: getMatchingSizeForSecurity_def Let_def)
qed

lemma getMatchingSizeForSecurity_fields [simp]:
  "userOrdersIndex (snd (getMatchingSizeForSecurity cached s c)) = userOrdersIndex c"
  "securityOrdersIndex (snd (getMatchingSizeForSecurity cached s c)) = securityOrdersIndex c"
  "orderIndex (snd (getMatchingSizeForSecurity cached s c)) = orderIndex c"
  "multiThread (snd (getMatchingSizeForSecurity cached s c)) = multiThread c"
  by (simp_all add: getMatchingSizeForSecurity_def Let_def
      matchAll_preserve [where f = userOrdersIndex]
      matchAll_preserve [where f = securityOrdersIndex]
      matchAll_preserve [where f = orderIndex]
      matchAll_preserve [where f = multiThread])

lemma wf_step: "wf c \<Longrightarrow> wf (step cached opn c)"
proof (cases opn)
  case (AddOrder x1)
  then show "wf c \<Longrightarrow> ?thesis" by (simp add: wf_addOrder)
next
  case (CancelOrder x2)
  then show "wf c \<Longrightarrow> ?thesis" by (simp add: cancelOrder_def wf_cancelSingleOrder)
next
  case (CancelOrdersForUser x3)
  then show "wf c \<Longrightarrow> ?thesis"
    by (simp add: cancelOrdersForUser_def wf_cancelOrders split: option.splits)
next
  case (CancelOrdersForSecIdWithMinimumQty x41 x42)
  then show "wf c \<Longrightarrow> ?thesis"
    by (simp add: cancelOrdersForSecIdWithMinimumQty_def wf_cancelOrders split: option.splits)
next
  case (GetMatchingSizeForSecurity x5)
  then show "wf c \<Longrightarrow> ?thesis" by (simp add: getMatchingSizeForSecurity_invariant)
next
  case (SetMultiThread x6)
  assume "wf c"
  then have "wf (setMultiThread x6 c)"
    by (rule wf_cong) (simp_all add: setMultiThread_def)
  then show ?thesis using SetMultiThread by simp
qed

lemma wf_run_from: "wf c \<Longrightarrow> wf (run cached ops c)"
  unfolding run_def by (induction ops arbitrary: c) (simp_all add: wf_step)

lemma wf_run: "wf (run cached ops emptyCache)"
  by (rule wf_run_from [OF wf_emptyCache])

subsection \<open>What a cancellation leaves in the order list\<close>

lemma cancel_cond: "(\<not> (0 < m \<and> q < m)) = (m \<le> (q::u32))"
  by (cases "m = 0") (auto simp: word_gt_0 not_less)

lemma wf_orders_distinct: "wf c \<Longrightarrow> distinct (orders c)"
  by (simp add: wf_def wf_store_def)

lemma cancelSingleOrder_orders:
  assumes wf: "wf c"
  shows "orders (cancelSingleOrder i m c) =
           filter (\<lambda>a. \<not> (orderId (deref (heap c) a) = i \<and> m \<le> qty (deref (heap c) a))) (orders c)"
proof (cases "map_of (orderIndex c) i")
  case None
  then have "a \<in> set (orders c) \<Longrightarrow> orderId (deref (heap c) a) \<noteq> i" for a
    using wf by (auto simp: wf_def wf_index_def)
  then have "filter (\<lambda>a. \<not> (orderId (deref (heap c) a) = i \<and> m \<le> qty (deref (heap c) a))) (orders c) = orders c"
    by (simp add: filter_id_conv)
  then show ?thesis using None by (simp add: cancelSingleOrder_skip)
next
  case (Some p)
  have p: "p \<in> set (orders c)" and pid: "orderId (deref (heap c) p) = i"
    using wf Some by (simp_all add: wf_index_Some)
  have only: "a \<in> set (orders c) \<Longrightarrow> orderId (deref (heap c) a) = i \<longleftrightarrow> a = p" for a
    using wf_id_inj [OF wf _ p, of a] pid by auto
  show ?thesis
  proof (cases "m \<le> qty (deref (heap c) p)")
    case True
    then have "\<not> (0 < m \<and> qty (deref (heap c) p) < m)"
      using cancel_cond [of m "qty (deref (heap c) p)"] by blast
    note flds = cancelSingleOrder_fields [OF Some this]
    have "filter (\<lambda>a. \<not> (orderId (deref (heap c) a) = i \<and> m \<le> qty (deref (heap c) a))) (orders c)
          = filter (\<lambda>a. a \<noteq> p) (orders c)"
      using only True by (intro filter_cong) auto
    also have "\<dots> = remove1 p (orders c)"
      using wf_orders_distinct [OF wf]
      by (simp add: distinct_remove1_removeAll removeAll_filter_not_eq) metis
    finally show ?thesis by (simp add: flds)
  next
    case False
    then have sk: "0 < m \<and> qty (deref (heap c) p) < m"
      using cancel_cond [of m "qty (deref (heap c) p)"] by blast
    have "filter (\<lambda>a. \<not> (orderId (deref (heap c) a) = i \<and> m \<le> qty (deref (heap c) a))) (orders c) = orders c"
      using only False by (auto simp: filter_id_conv)
    then show ?thesis using cancelSingleOrder_skip(2) [OF Some sk] by simp
  qed
qed

lemma cancelSingleOrder_heap:
  assumes wf: "wf c" and a: "a \<in> set (orders (cancelSingleOrder i m c))"
  shows "heap (cancelSingleOrder i m c) a = heap c a"
proof (cases "map_of (orderIndex c) i")
  case None
  then show ?thesis by (simp add: cancelSingleOrder_skip)
next
  case (Some p)
  show ?thesis
  proof (cases "0 < m \<and> qty (deref (heap c) p) < m")
    case True
    then show ?thesis using Some by (simp add: cancelSingleOrder_skip)
  next
    case False
    note flds = cancelSingleOrder_fields [OF Some False]
    from a have "a \<noteq> p" using wf_orders_distinct [OF wf] by (simp add: flds)
    then show ?thesis by (simp add: flds)
  qed
qed

lemma map_deref_cong:
  "(\<And>a. a \<in> set xs \<Longrightarrow> h' a = h a) \<Longrightarrow> map (deref h') xs = map (deref h) xs"
  by (simp add: deref_def)

lemma getAllOrders_cancelSingleOrder:
  assumes wf: "wf c"
  shows "getAllOrders (cancelSingleOrder i m c) =
           filter (\<lambda>x. \<not> (orderId x = i \<and> m \<le> qty x)) (getAllOrders c)"
proof -
  have "getAllOrders (cancelSingleOrder i m c)
        = map (deref (heap c)) (orders (cancelSingleOrder i m c))"
    unfolding getAllOrders_def
    by (rule map_deref_cong) (rule cancelSingleOrder_heap [OF wf])
  then show ?thesis
    by (simp add: cancelSingleOrder_orders [OF wf] getAllOrders_def filter_map comp_def)
qed

lemma getAllOrders_cancelOrders:
  assumes "wf c"
  shows "getAllOrders (cancelOrders ks m c) =
           filter (\<lambda>x. \<not> (orderId x \<in> set ks \<and> m \<le> qty x)) (getAllOrders c)"
  using assms
proof (induction ks arbitrary: c)
  case Nil
  then show ?case by (simp add: cancelOrders_def)
next
  case (Cons k ks)
  have w: "wf (cancelSingleOrder k m c)" using Cons.prems by (rule wf_cancelSingleOrder)
  have "getAllOrders (cancelOrders (k # ks) m c) = getAllOrders (cancelOrders ks m (cancelSingleOrder k m c))"
    by (simp add: cancelOrders_def)
  also have "\<dots> = filter (\<lambda>x. \<not> (orderId x \<in> set ks \<and> m \<le> qty x))
                      (filter (\<lambda>x. \<not> (orderId x = k \<and> m \<le> qty x)) (getAllOrders c))"
    by (simp add: Cons.IH [OF w] getAllOrders_cancelSingleOrder [OF Cons.prems])
  also have "\<dots> = filter (\<lambda>x. \<not> (orderId x \<in> set (k # ks) \<and> m \<le> qty x)) (getAllOrders c)"
    by (auto intro: filter_cong)
  finally show ?case .
qed

lemma wf_security_ids:
  assumes wf: "wf c" and x: "x \<in> set (getAllOrders c)"
  shows "orderId x \<in> set (subscript (securityOrdersIndex c) s []) \<longleftrightarrow> securityId x = s"
proof -
  from x obtain a where a: "a \<in> set (orders c)" "x = deref (heap c) a"
    by (auto simp: getAllOrders_def)
  have S: "set (subscript (securityOrdersIndex c) s []) =
          {orderId (deref (heap c) a) |a. a \<in> set (orders c) \<and> securityId (deref (heap c) a) = s}"
    using wf by (simp add: wf_def wf_security_def)
  show ?thesis
  proof
    assume "orderId x \<in> set (subscript (securityOrdersIndex c) s [])"
    then obtain b where b: "b \<in> set (orders c)" "securityId (deref (heap c) b) = s"
      "orderId x = orderId (deref (heap c) b)"
      unfolding S by blast
    from wf_id_inj [OF wf b(1) a(1)] b(3) a(2) have "b = a" by simp
    with b(2) a(2) show "securityId x = s" by simp
  next
    assume "securityId x = s"
    with a show "orderId x \<in> set (subscript (securityOrdersIndex c) s [])"
      unfolding S by blast
  qed
qed

lemma wf_user_ids:
  assumes wf: "wf c" and x: "x \<in> set (getAllOrders c)"
  shows "orderId x \<in> set (subscript (userOrdersIndex c) u []) \<longleftrightarrow> user x = u"
proof -
  from x obtain a where a: "a \<in> set (orders c)" "x = deref (heap c) a"
    by (auto simp: getAllOrders_def)
  have S: "set (subscript (userOrdersIndex c) u []) =
          {orderId (deref (heap c) a) |a. a \<in> set (orders c) \<and> user (deref (heap c) a) = u}"
    using wf by (simp add: wf_def wf_user_def)
  show ?thesis
  proof
    assume "orderId x \<in> set (subscript (userOrdersIndex c) u [])"
    then obtain b where b: "b \<in> set (orders c)" "user (deref (heap c) b) = u"
      "orderId x = orderId (deref (heap c) b)"
      unfolding S by blast
    from wf_id_inj [OF wf b(1) a(1)] b(3) a(2) have "b = a" by simp
    with b(2) a(2) show "user x = u" by simp
  next
    assume "user x = u"
    with a show "orderId x \<in> set (subscript (userOrdersIndex c) u [])"
      unfolding S by blast
  qed
qed

lemma getAllOrders_cancelOrdersForSecIdWithMinimumQty:
  assumes wf: "wf c"
  shows "getAllOrders (cancelOrdersForSecIdWithMinimumQty s m c) =
           filter (\<lambda>x. \<not> (securityId x = s \<and> m \<le> qty x)) (getAllOrders c)"
proof -
  let ?ks = "subscript (securityOrdersIndex c) s []"
  have eq: "filter (\<lambda>x. \<not> (orderId x \<in> set ?ks \<and> m \<le> qty x)) (getAllOrders c)
          = filter (\<lambda>x. \<not> (securityId x = s \<and> m \<le> qty x)) (getAllOrders c)"
    using wf_security_ids [OF wf] by (intro filter_cong) auto
  show ?thesis
  proof (cases "securityOrdersIndex c s")
    case None
    then have "?ks = []" by simp
    with eq have "filter (\<lambda>x. \<not> (securityId x = s \<and> m \<le> qty x)) (getAllOrders c) = getAllOrders c"
      by simp
    then show ?thesis using None by (simp add: cancelOrdersForSecIdWithMinimumQty_def)
  next
    case (Some ks)
    then have "?ks = ks" by simp
    with eq getAllOrders_cancelOrders [OF wf, of ks m] Some show ?thesis
      by (simp add: cancelOrdersForSecIdWithMinimumQty_def)
  qed
qed

lemma getAllOrders_cancelOrdersForUser:
  assumes wf: "wf c"
  shows "getAllOrders (cancelOrdersForUser u c) = filter (\<lambda>x. user x \<noteq> u) (getAllOrders c)"
proof -
  let ?ks = "subscript (userOrdersIndex c) u []"
  have eq: "filter (\<lambda>x. \<not> (orderId x \<in> set ?ks \<and> 0 \<le> qty x)) (getAllOrders c)
          = filter (\<lambda>x. user x \<noteq> u) (getAllOrders c)"
    using wf_user_ids [OF wf] by (intro filter_cong) auto
  show ?thesis
  proof (cases "userOrdersIndex c u")
    case None
    then have "?ks = []" by simp
    with eq have "filter (\<lambda>x. user x \<noteq> u) (getAllOrders c) = getAllOrders c"
      by simp
    then show ?thesis using None by (simp add: cancelOrdersForUser_def)
  next
    case (Some ks)
    then have "?ks = ks" by simp
    with eq getAllOrders_cancelOrders [OF wf, of ks 0] Some show ?thesis
      by (simp add: cancelOrdersForUser_def)
  qed
qed

subsection \<open>The order list as a function of the calls\<close>

lemma map_static_filter:
  assumes "\<And>x. P x = Q (static x)"
  shows "map static (filter P xs) = filter Q (map static xs)"
  using assms by (induction xs) simp_all

lemma static_simps [simp]:
  "orderId (static x) = orderId x" "securityId (static x) = securityId x"
  "side (static x) = side x" "qty (static x) = qty x" "user (static x) = user x"
  "company (static x) = company x" "workingQty (static x) = 0"
  by (simp_all add: static_def)

lemma same_static_getAllOrders:
  assumes "same_static (heap c) (heap c')" "orders c' = orders c"
  shows "map static (getAllOrders c') = map static (getAllOrders c)"
  using same_static_deref [OF assms(1)] assms(2) by (simp add: getAllOrders_def)

lemma getAllOrders_matchOrderInCache:
  assumes "wf c" "a \<in> set (orders c)"
  shows "map static (getAllOrders (snd (matchOrderInCache a c))) = map static (getAllOrders c)"
  using matchOrderInCache_same_static [OF assms] by (rule same_static_getAllOrders) simp

lemma getAllOrders_insertOrder:
  assumes "wf c"
  shows "getAllOrders (snd (insertOrder ord c)) = ord # getAllOrders c"
proof -
  have "a \<in> set (orders c) \<Longrightarrow> a \<noteq> newPtr c" for a using newPtr_fresh [of c] by auto
  then show ?thesis by (simp add: getAllOrders_def)
qed

lemma wf_exists_order:
  assumes "wf c"
  shows "exists_order i c \<longleftrightarrow> i \<in> orderId ` set (getAllOrders c)"
proof -
  have "exists_order i c \<longleftrightarrow> (\<exists>a. map_of (orderIndex c) i = Some a)"
    by (simp add: exists_order_def)
  also have "\<dots> \<longleftrightarrow> (\<exists>a. a \<in> set (orders c) \<and> orderId (deref (heap c) a) = i)"
    by (simp add: wf_index_Some [OF assms])
  also have "\<dots> \<longleftrightarrow> i \<in> orderId ` set (getAllOrders c)"
    by (auto simp: getAllOrders_def)
  finally show ?thesis .
qed

lemma getAllOrders_addOrder:
  assumes wf: "wf c"
  shows "map static (getAllOrders (addOrder cached ord c)) =
           (if exists_order (orderId ord) c then map static (getAllOrders c)
            else static ord # map static (getAllOrders c))"
proof (cases "exists_order (orderId ord) c")
  case True
  then show ?thesis by (simp add: addOrder_def)
next
  case False
  let ?c5 = "snd (insertOrder ord c)"
  have w: "wf ?c5" using wf False by (rule wf_insertOrder)
  have p: "newPtr c \<in> set (orders ?c5)" by simp
  have "map static (getAllOrders (snd (matchOrderInCache (newPtr c) ?c5))) = map static (getAllOrders ?c5)"
    using w p by (rule getAllOrders_matchOrderInCache)
  moreover have "addOrder cached ord c = (if cached then snd (matchOrderInCache (newPtr c) ?c5) else ?c5)"
    using False by (simp add: addOrder_def split: prod.splits) (metis fst_conv insertOrder_fields(1) snd_conv)
  ultimately show ?thesis using False by (simp add: getAllOrders_insertOrder [OF wf])
qed

lemma getAllOrders_getMatchingSizeForSecurity:
  assumes wf: "wf c"
  shows "map static (getAllOrders (snd (getMatchingSizeForSecurity cached s c))) = map static (getAllOrders c)"
  using getMatchingSizeForSecurity_invariant [OF wf, of cached s]
  by (intro same_static_getAllOrders) simp_all

lemma live_step:
  assumes wf: "wf c" and rel: "map static (getAllOrders c) = rev (map static xs)"
  shows "map static (getAllOrders (step cached opn c)) = rev (map static (liveStep opn xs))"
proof (cases opn)
  case (AddOrder ord)
  have "exists_order (orderId ord) c \<longleftrightarrow> orderId ord \<in> orderId ` set xs"
  proof -
    have "orderId ` set (getAllOrders c) = orderId ` set (map static (getAllOrders c))"
      by (simp add: image_image)
    also have "\<dots> = orderId ` set xs" by (simp add: rel image_image)
    finally show ?thesis by (simp add: wf_exists_order [OF wf])
  qed
  then show ?thesis using AddOrder rel by (simp add: getAllOrders_addOrder [OF wf])
next
  case (CancelOrder i)
  have "map static (filter (\<lambda>x. \<not> (orderId x = i \<and> 0 \<le> qty x)) (getAllOrders c))
        = filter (\<lambda>x. orderId x \<noteq> i) (map static (getAllOrders c))"
    by (rule map_static_filter) simp
  also have "\<dots> = rev (map static (filter (\<lambda>x. orderId x \<noteq> i) xs))"
    by (simp add: rel rev_filter [symmetric] map_static_filter [where Q = "\<lambda>x. orderId x \<noteq> i"])
  finally show ?thesis using CancelOrder
    by (simp add: cancelOrder_def getAllOrders_cancelSingleOrder [OF wf])
next
  case (CancelOrdersForUser u)
  have "map static (filter (\<lambda>x. user x \<noteq> u) (getAllOrders c))
        = filter (\<lambda>x. user x \<noteq> u) (map static (getAllOrders c))"
    by (rule map_static_filter) simp
  also have "\<dots> = rev (map static (filter (\<lambda>x. user x \<noteq> u) xs))"
    by (simp add: rel rev_filter [symmetric] map_static_filter [where Q = "\<lambda>x. user x \<noteq> u"])
  finally show ?thesis using CancelOrdersForUser
    by (simp add: getAllOrders_cancelOrdersForUser [OF wf])
next
  case (CancelOrdersForSecIdWithMinimumQty s m)
  have "map static (filter (\<lambda>x. \<not> (securityId x = s \<and> m \<le> qty x)) (getAllOrders c))
        = filter (\<lambda>x. \<not> (securityId x = s \<and> m \<le> qty x)) (map static (getAllOrders c))"
    by (rule map_static_filter) simp
  also have "\<dots> = rev (map static (filter (\<lambda>x. \<not> (securityId x = s \<and> m \<le> qty x)) xs))"
    by (simp add: rel rev_filter [symmetric]
        map_static_filter [where Q = "\<lambda>x. \<not> (securityId x = s \<and> m \<le> qty x)"])
  finally show ?thesis using CancelOrdersForSecIdWithMinimumQty
    by (simp add: getAllOrders_cancelOrdersForSecIdWithMinimumQty [OF wf])
next
  case (GetMatchingSizeForSecurity s)
  then show ?thesis using rel by (simp add: getAllOrders_getMatchingSizeForSecurity [OF wf])
next
  case (SetMultiThread v)
  then show ?thesis using rel by (simp add: setMultiThread_def getAllOrders_def)
qed

lemma live_run:
  assumes "wf c" "map static (getAllOrders c) = rev (map static xs)"
  shows "map static (getAllOrders (run cached ops c)) = rev (map static (fold liveStep ops xs))"
  using assms
proof (induction ops arbitrary: c xs)
  case Nil
  then show ?case by (simp add: run_def)
next
  case (Cons opn ops)
  have "wf (step cached opn c)" using Cons.prems(1) by (rule wf_step)
  moreover have "map static (getAllOrders (step cached opn c)) = rev (map static (liveStep opn xs))"
    using Cons.prems by (rule live_step)
  ultimately have "map static (getAllOrders (run cached ops (step cached opn c)))
                   = rev (map static (fold liveStep ops (liveStep opn xs)))"
    by (rule Cons.IH)
  then show ?case by (simp add: run_def)
qed

subsection \<open>Cancelling one order\<close>

lemma wf_subscript_nonempty_Some:
  "x \<in> set (subscript m k []) \<Longrightarrow> m k \<noteq> None"
  by (cases "m k") auto

lemma wf_order_in_user_index:
  assumes "wf c" "p \<in> set (orders c)"
  shows "orderId (deref (heap c) p) \<in> set (subscript (userOrdersIndex c) (user (deref (heap c) p)) [])"
  using assms by (auto simp: wf_def wf_user_def)

lemma wf_order_in_security_index:
  assumes "wf c" "p \<in> set (orders c)"
  shows "orderId (deref (heap c) p) \<in> set (subscript (securityOrdersIndex c) (securityId (deref (heap c) p)) [])"
  using assms by (auto simp: wf_def wf_security_def)

lemma cancelOrder_fields:
  assumes "map_of (orderIndex c) i = Some p"
  shows
  "orders (cancelOrder i c) = remove1 p (orders c)"
  "heap (cancelOrder i c) = (heap c)(p := None)"
  "orderIndex (cancelOrder i c) = index_erase i (orderIndex c)"
  "userOrdersIndex (cancelOrder i c) =
     (userOrdersIndex c)(user (deref (heap c) p) \<mapsto>
        removeAll i (subscript (userOrdersIndex c) (user (deref (heap c) p)) []))"
  "securityOrdersIndex (cancelOrder i c) =
     (securityOrdersIndex c)(securityId (deref (heap c) p) \<mapsto>
        removeAll i (subscript (securityOrdersIndex c) (securityId (deref (heap c) p)) []))"
  "matchedQuantity (cancelOrder i c) = matchedQuantity c"
  "multiThread (cancelOrder i c) = multiThread c"
  unfolding cancelOrder_def
  using cancelSingleOrder_fields [OF assms, of 0] by simp_all

lemma wf_cancelOrder: "wf c \<Longrightarrow> wf (cancelOrder i c)"
  by (simp add: cancelOrder_def wf_cancelSingleOrder)

lemma getAllOrders_cancelOrder:
  "wf c \<Longrightarrow> getAllOrders (cancelOrder i c) = filter (\<lambda>x. orderId x \<noteq> i) (getAllOrders c)"
  by (simp add: cancelOrder_def getAllOrders_cancelSingleOrder)

lemma wf_user_index_ids:
  assumes "wf c"
  shows "set (subscript (userOrdersIndex c) u []) = orderId ` {x \<in> set (getAllOrders c). user x = u}"
  using assms by (auto simp: wf_def wf_user_def getAllOrders_def)

lemma wf_security_index_ids:
  assumes "wf c"
  shows "set (subscript (securityOrdersIndex c) s []) = orderId ` {x \<in> set (getAllOrders c). securityId x = s}"
  using assms by (auto simp: wf_def wf_security_def getAllOrders_def)

lemma cancelOrder_removes:
  assumes wf: "wf c" and i: "map_of (orderIndex c) i = Some p"
  shows "\<not> exists_order i (cancelOrder i c)"
    and "i \<notin> set (subscript (userOrdersIndex (cancelOrder i c)) u [])"
    and "i \<notin> set (subscript (securityOrdersIndex (cancelOrder i c)) s [])"
    and "p \<notin> set (subscript (securityLongOrdersIndex (cancelOrder i c)) s [])"
    and "p \<notin> set (subscript (securityShortOrdersIndex (cancelOrder i c)) s [])"
    and "p \<notin> set (orders (cancelOrder i c))"
    and "i \<notin> orderId ` set (getAllOrders (cancelOrder i c))"
proof -
  let ?c = "cancelOrder i c"
  have w: "wf ?c" using wf by (rule wf_cancelOrder)
  show ids: "i \<notin> orderId ` set (getAllOrders ?c)"
    by (auto simp: getAllOrders_cancelOrder [OF wf])
  then show "\<not> exists_order i ?c" by (simp add: wf_exists_order [OF w])
  show "i \<notin> set (subscript (userOrdersIndex ?c) u [])"
    using ids by (auto simp: wf_user_index_ids [OF w])
  show "i \<notin> set (subscript (securityOrdersIndex ?c) s [])"
    using ids by (auto simp: wf_security_index_ids [OF w])
  show p: "p \<notin> set (orders ?c)"
    using wf_orders_distinct [OF wf] by (simp add: cancelOrder_fields [OF i])
  show "p \<notin> set (subscript (securityLongOrdersIndex ?c) s [])"
    using p wf_long_orders [OF w, of s] by auto
  show "p \<notin> set (subscript (securityShortOrdersIndex ?c) s [])"
    using p wf_short_orders [OF w, of s] by auto
qed

lemma cancelOrder_keeps_security_keys:
  assumes wf: "wf c"
  shows "securityOrdersIndex (cancelOrder i c) q = None \<longleftrightarrow> securityOrdersIndex c q = None"
proof (cases "map_of (orderIndex c) i")
  case None
  then show ?thesis by (simp add: cancelOrder_def cancelSingleOrder_skip)
next
  case (Some p)
  have p: "p \<in> set (orders c)" using wf Some by (simp add: wf_index_Some)
  have "securityOrdersIndex c (securityId (deref (heap c) p)) \<noteq> None"
    using wf_order_in_security_index [OF wf p] by (rule wf_subscript_nonempty_Some)
  then show ?thesis by (auto simp: cancelOrder_fields [OF Some])
qed

subsection \<open>The keys of the by-user and by-security maps\<close>

lemma addOrder_unfold:
  "\<not> exists_order (orderId ord) c \<Longrightarrow>
   addOrder cached ord c =
     (if cached then snd (matchOrderInCache (newPtr c) (snd (insertOrder ord c)))
      else snd (insertOrder ord c))"
  by (simp add: addOrder_def split: prod.splits) (metis fst_conv insertOrder_fields(1) snd_conv)

lemma addOrder_index_entries:
  assumes "\<not> exists_order (orderId ord) c"
  shows "userOrdersIndex (addOrder cached ord c) =
           (userOrdersIndex c)(user ord \<mapsto>
              List.insert (orderId ord) (subscript (userOrdersIndex c) (user ord) []))"
    and "securityOrdersIndex (addOrder cached ord c) =
           (securityOrdersIndex c)(securityId ord \<mapsto>
              List.insert (orderId ord) (subscript (securityOrdersIndex c) (securityId ord) []))"
  by (simp_all add: addOrder_unfold [OF assms])

lemma cancelSingleOrder_user_keys:
  assumes "wf c"
  shows "dom (userOrdersIndex (cancelSingleOrder i m c)) = dom (userOrdersIndex c)"
proof (cases "map_of (orderIndex c) i")
  case None
  then show ?thesis by (simp add: cancelSingleOrder_skip)
next
  case (Some p)
  have p: "p \<in> set (orders c)" using assms Some by (simp add: wf_index_Some)
  have k: "userOrdersIndex c (user (deref (heap c) p)) \<noteq> None"
    using wf_order_in_user_index [OF assms p] by (rule wf_subscript_nonempty_Some)
  show ?thesis
  proof (cases "0 < m \<and> qty (deref (heap c) p) < m")
    case True
    then show ?thesis using Some by (simp add: cancelSingleOrder_skip)
  next
    case False
    show ?thesis using k by (auto simp: cancelSingleOrder_fields [OF Some False])
  qed
qed

lemma cancelSingleOrder_security_keys:
  assumes "wf c"
  shows "dom (securityOrdersIndex (cancelSingleOrder i m c)) = dom (securityOrdersIndex c)"
proof (cases "map_of (orderIndex c) i")
  case None
  then show ?thesis by (simp add: cancelSingleOrder_skip)
next
  case (Some p)
  have p: "p \<in> set (orders c)" using assms Some by (simp add: wf_index_Some)
  have k: "securityOrdersIndex c (securityId (deref (heap c) p)) \<noteq> None"
    using wf_order_in_security_index [OF assms p] by (rule wf_subscript_nonempty_Some)
  show ?thesis
  proof (cases "0 < m \<and> qty (deref (heap c) p) < m")
    case True
    then show ?thesis using Some by (simp add: cancelSingleOrder_skip)
  next
    case False
    show ?thesis using k by (auto simp: cancelSingleOrder_fields [OF Some False])
  qed
qed

lemma cancelOrders_keys:
  assumes "wf c"
  shows "dom (userOrdersIndex (cancelOrders ks m c)) = dom (userOrdersIndex c)
       \<and> dom (securityOrdersIndex (cancelOrders ks m c)) = dom (securityOrdersIndex c)"
  using assms
proof (induction ks arbitrary: c)
  case Nil
  then show ?case by (simp add: cancelOrders_def)
next
  case (Cons k ks)
  have w: "wf (cancelSingleOrder k m c)" using Cons.prems by (rule wf_cancelSingleOrder)
  have "cancelOrders (k # ks) m c = cancelOrders ks m (cancelSingleOrder k m c)"
    by (simp add: cancelOrders_def)
  then show ?case
    using Cons.IH [OF w] cancelSingleOrder_user_keys [OF Cons.prems, of k m]
      cancelSingleOrder_security_keys [OF Cons.prems, of k m] by simp
qed

lemma step_keys:
  assumes wf: "wf c"
  shows "dom (userOrdersIndex (step cached opn c)) = dom (userOrdersIndex c) \<union> newUserKey opn c"
    and "dom (securityOrdersIndex (step cached opn c)) = dom (securityOrdersIndex c) \<union> newSecurityKey opn c"
proof -
  have "dom (userOrdersIndex (step cached opn c)) = dom (userOrdersIndex c) \<union> newUserKey opn c
      \<and> dom (securityOrdersIndex (step cached opn c)) = dom (securityOrdersIndex c) \<union> newSecurityKey opn c"
  proof (cases opn)
    case (AddOrder ord)
    then show ?thesis
      by (cases "exists_order (orderId ord) c") (auto simp: addOrder_index_entries, simp_all add: addOrder_def)
  next
    case (CancelOrder i)
    then show ?thesis
      using cancelSingleOrder_user_keys [OF wf, of i 0] cancelSingleOrder_security_keys [OF wf, of i 0]
      by (simp add: cancelOrder_def)
  next
    case (CancelOrdersForUser u)
    then show ?thesis
      using cancelOrders_keys [OF wf]
      by (simp add: cancelOrdersForUser_def split: option.splits)
  next
    case (CancelOrdersForSecIdWithMinimumQty s m)
    then show ?thesis
      using cancelOrders_keys [OF wf]
      by (simp add: cancelOrdersForSecIdWithMinimumQty_def split: option.splits)
  next
    case (GetMatchingSizeForSecurity s)
    then show ?thesis by simp
  next
    case (SetMultiThread v)
    then show ?thesis by (simp add: setMultiThread_def)
  qed
  then show "dom (userOrdersIndex (step cached opn c)) = dom (userOrdersIndex c) \<union> newUserKey opn c"
    and "dom (securityOrdersIndex (step cached opn c)) = dom (securityOrdersIndex c) \<union> newSecurityKey opn c"
    by simp_all
qed


lemma run_snoc: "run cached (ops @ [opn]) c = step cached opn (run cached ops c)"
  by (simp add: run_def)

lemma user_keys_from_adds:
  "dom (userOrdersIndex (run cached ops emptyCache)) \<subseteq> {user ord |ord. AddOrder ord \<in> set ops}"
proof (induction ops rule: rev_induct)
  case Nil
  then show ?case by (simp add: run_def emptyCache_def)
next
  case (snoc opn ops)
  have "newUserKey opn (run cached ops emptyCache) \<subseteq> {user ord |ord. AddOrder ord \<in> set (ops @ [opn])}"
    by (cases opn) auto
  with snoc show ?case
    by (auto simp: run_snoc step_keys [OF wf_run])
qed

lemma security_keys_from_adds:
  "dom (securityOrdersIndex (run cached ops emptyCache)) \<subseteq> {securityId ord |ord. AddOrder ord \<in> set ops}"
proof (induction ops rule: rev_induct)
  case Nil
  then show ?case by (simp add: run_def emptyCache_def)
next
  case (snoc opn ops)
  have "newSecurityKey opn (run cached ops emptyCache) \<subseteq> {securityId ord |ord. AddOrder ord \<in> set (ops @ [opn])}"
    by (cases opn) auto
  with snoc show ?case
    by (auto simp: run_snoc step_keys [OF wf_run])
qed

lemma set_empty_subscript:
  "m k = Some xs \<Longrightarrow> set (subscript m k []) = {} \<Longrightarrow> m k = Some []"
  by simp

subsection \<open>What the matcher does to working quantities and to the match cache\<close>

lemma workingQty_fillLots_le: "workingQty (fillLots q x) \<le> workingQty x"
  by (simp add: fillLots_def word_sub_le)

lemma le_upd_fill:
  "h a \<noteq> None \<Longrightarrow> workingQty (deref (h(a \<mapsto> fillLots q (deref h a))) b) \<le> workingQty (deref h b)"
  by (simp add: workingQty_fillLots_le)

lemma matchLoop_workingQty_le:
  "a \<in> dom h \<Longrightarrow> set xs \<subseteq> dom h \<Longrightarrow>
   workingQty (deref (fst (matchLoop a xs h m)) b) \<le> workingQty (deref h b)"
proof (induction xs arbitrary: h m)
  case Nil
  then show ?case by simp
next
  case (Cons x xs)
  let ?q = "min (workingQty (deref h a)) (workingQty (deref h x))"
  let ?h1 = "h(a \<mapsto> fillLots ?q (deref h a))"
  let ?h2 = "?h1(x \<mapsto> fillLots ?q (deref ?h1 x))"
  from Cons.prems have a: "h a \<noteq> None" and x: "h x \<noteq> None" by auto
  have l1: "workingQty (deref ?h1 b) \<le> workingQty (deref h b)" using a by (rule le_upd_fill)
  have "?h1 x \<noteq> None" using x by simp
  then have l2: "workingQty (deref ?h2 b) \<le> workingQty (deref ?h1 b)" by (rule le_upd_fill)
  have l12: "workingQty (deref ?h2 b) \<le> workingQty (deref h b)" using l2 l1 by (rule order_trans)
  have d2: "dom ?h2 = dom h" using a x by auto
  have ih2: "workingQty (deref (fst (matchLoop a xs ?h2 (m + ?q))) b) \<le> workingQty (deref ?h2 b)"
    using Cons.prems d2 by (intro Cons.IH) auto
  have ih0: "workingQty (deref (fst (matchLoop a xs h m)) b) \<le> workingQty (deref h b)"
    using Cons.prems by (intro Cons.IH) auto
  show ?case
    using ih0 l12 order_trans [OF ih2 l12]
    by (simp add: Let_def)
qed

lemma matchOrderInCache_workingQty_le:
  assumes "wf c" "a \<in> set (orders c)"
  shows "workingQty (deref (heap (snd (matchOrderInCache a c))) b) \<le> workingQty (deref (heap c) b)"
proof -
  have a: "a \<in> dom (heap c)" using assms by (simp add: wf_def wf_store_def)
  have "workingQty (deref (fst (matchLoop a (subscript (securityShortOrdersIndex c) s []) (heap c) 0)) b)
          \<le> workingQty (deref (heap c) b)" for s
    using a wf_short_dom [OF assms(1)] by (rule matchLoop_workingQty_le)
  moreover have "workingQty (deref (fst (matchLoop a (subscript (securityLongOrdersIndex c) s []) (heap c) 0)) b)
          \<le> workingQty (deref (heap c) b)" for s
    using a wf_long_dom [OF assms(1)] by (rule matchLoop_workingQty_le)
  ultimately show ?thesis
    by (simp add: matchOrderInCache_def Let_def split: prod.splits)
      (metis fst_conv)
qed

lemma matchOrderInCache_cache:
  "getMatchedQuantityInCache q (snd (matchOrderInCache a c)) =
     getMatchedQuantityInCache q c
       + (if q = securityId (deref (heap c) a) then fst (matchOrderInCache a c) else 0)"
  by (simp add: matchOrderInCache_def Let_def getMatchedQuantityInCache_def subscript_def
      split: prod.splits option.splits)

lemma index_erase_insert:
  "map_of al k = None \<Longrightarrow> index_erase k (index_insert k v al) = al"
  by (auto simp: index_erase_def index_insert_def filter_id_conv map_of_eq_None_iff)

lemma map_of_index_insert:
  "map_of al k = None \<Longrightarrow> map_of (index_insert k v al) k = Some v"
  by (simp add: index_insert_def)

subsection \<open>An add followed by the cancel of the same id\<close>

lemma wf_user_index_live:
  assumes "wf c" "i \<in> set (subscript (userOrdersIndex c) u [])"
  shows "exists_order i c"
  using assms by (auto simp: wf_user_index_ids wf_exists_order)

lemma wf_security_index_live:
  assumes "wf c" "i \<in> set (subscript (securityOrdersIndex c) s [])"
  shows "exists_order i c"
  using assms by (auto simp: wf_security_index_ids wf_exists_order)

lemma removeAll_insert_fresh: "i \<notin> set xs \<Longrightarrow> removeAll i (List.insert i xs) = xs"
  by (simp add: List.insert_def)

lemma remove1_snoc_fresh: "p \<notin> set xs \<Longrightarrow> remove1 p (xs @ [p]) = xs"
  by (simp add: remove1_append)

lemma add_then_cancel:
  assumes wf: "wf c" and new: "\<not> exists_order (orderId ord) c"
  defines "c1 \<equiv> addOrder True ord c"
  defines "c2 \<equiv> cancelOrder (orderId ord) c1"
  defines "m \<equiv> fst (matchOrderInCache (newPtr c) (snd (insertOrder ord c)))"
  shows "orders c2 = orders c"
    and "orderIndex c2 = orderIndex c"
    and "multiThread c2 = multiThread c"
    and "same_static (heap c) (heap c2)"
    and "workingQty (deref (heap c2) a) \<le> workingQty (deref (heap c) a)"
    and "subscript (userOrdersIndex c2) k [] = subscript (userOrdersIndex c) k []"
    and "subscript (securityOrdersIndex c2) k [] = subscript (securityOrdersIndex c) k []"
    and "subscript (securityLongOrdersIndex c2) k [] = subscript (securityLongOrdersIndex c) k []"
    and "subscript (securityShortOrdersIndex c2) k [] = subscript (securityShortOrdersIndex c) k []"
    and "getMatchedQuantityInCache q c2 =
           getMatchedQuantityInCache q c + (if q = securityId ord then m else 0)"
proof -
  let ?i = "orderId ord"
  let ?p = "newPtr c"
  let ?c5 = "snd (insertOrder ord c)"
  let ?c6 = "snd (matchOrderInCache ?p ?c5)"
  have c1: "c1 = ?c6" unfolding c1_def using new by (simp add: addOrder_unfold)
  have w5: "wf ?c5" using wf new by (rule wf_insertOrder)
  have p5: "?p \<in> set (orders ?c5)" by simp
  have w6: "wf ?c6" using w5 p5 by (rule wf_matchOrderInCache)
  have fresh: "?p \<notin> set (orders c)" by (rule newPtr_fresh)
  have pdom: "heap c ?p = None" using wf fresh by (auto simp: wf_def wf_store_def)
  have none: "map_of (orderIndex c) ?i = None" using new by (simp add: exists_order_def)
  have some: "map_of (orderIndex ?c6) ?i = Some ?p"
    using none by (simp add: map_of_index_insert)
  have ss: "same_static (heap ?c5) (heap ?c6)" using w5 p5 by (rule matchOrderInCache_same_static)
  have "static (deref (heap ?c6) ?p) = static (deref (heap ?c5) ?p)"
    using ss by (rule same_static_deref)
  then have st: "static (deref (heap ?c6) ?p) = static ord" by simp
  note f = static_fields [OF st]
  have nz: "\<not> (0 < (0::u32) \<and> qty (deref (heap ?c6) ?p) < 0)" by simp
  have c2: "c2 = cancelOrder ?i ?c6" by (simp add: c2_def c1)
  note flds = c2 cancelSingleOrder_fields [OF some nz, folded cancelOrder_def, unfolded f]
  show "orders c2 = orders c" using fresh by (simp add: flds)
  show "orderIndex c2 = orderIndex c" using none by (simp add: flds index_erase_insert)
  show "multiThread c2 = multiThread c" by (simp add: flds)
  show "same_static (heap c) (heap c2)"
    unfolding same_static_def
  proof
    fix b
    show "map_option static (heap c2 b) = map_option static (heap c b)"
    proof (cases "b = ?p")
      case True
      then show ?thesis using pdom by (simp add: flds)
    next
      case False
      have "map_option static (heap ?c6 b) = map_option static (heap ?c5 b)"
        using ss by (simp add: same_static_def)
      then show ?thesis using False by (simp add: flds)
    qed
  qed
  show "workingQty (deref (heap c2) a) \<le> workingQty (deref (heap c) a)"
  proof (cases "a = ?p")
    case True
    then show ?thesis using pdom by (simp add: flds deref_def)
  next
    case False
    have "workingQty (deref (heap ?c6) a) \<le> workingQty (deref (heap ?c5) a)"
      using w5 p5 by (rule matchOrderInCache_workingQty_le)
    then show ?thesis using False by (simp add: flds)
  qed
  show "subscript (userOrdersIndex c2) k [] = subscript (userOrdersIndex c) k []"
  proof -
    have "?i \<notin> set (subscript (userOrdersIndex c) (user ord) [])"
      using wf_user_index_live [OF wf] new by blast
    then show ?thesis by (simp add: flds removeAll_insert_fresh)
  qed
  show "subscript (securityOrdersIndex c2) k [] = subscript (securityOrdersIndex c) k []"
  proof -
    have "?i \<notin> set (subscript (securityOrdersIndex c) (securityId ord) [])"
      using wf_security_index_live [OF wf] new by blast
    then show ?thesis by (simp add: flds removeAll_insert_fresh)
  qed
  have p6: "?p \<in> set (orders ?c6)" by simp
  have i6: "orderId (deref (heap ?c6) ?p) = ?i" by (simp add: f)
  note one = wf_side_list_one [OF w6 p6, unfolded f i6]
  show "subscript (securityLongOrdersIndex c2) k [] = subscript (securityLongOrdersIndex c) k []"
  proof (cases "isBuySide ord")
    case True
    have "?p \<notin> set (subscript (securityLongOrdersIndex c) (securityId ord) [])"
      using wf_long_orders [OF wf] fresh by blast
    then show ?thesis using True one(1) by (simp add: flds remove1_snoc_fresh)
  next
    case False
    then show ?thesis by (simp add: flds)
  qed
  show "subscript (securityShortOrdersIndex c2) k [] = subscript (securityShortOrdersIndex c) k []"
  proof (cases "isBuySide ord")
    case True
    then show ?thesis by (simp add: flds)
  next
    case False
    have "?p \<notin> set (subscript (securityShortOrdersIndex c) (securityId ord) [])"
      using wf_short_orders [OF wf] fresh by blast
    then show ?thesis using False one(2) by (simp add: flds remove1_snoc_fresh)
  qed
  show "getMatchedQuantityInCache q c2 =
           getMatchedQuantityInCache q c + (if q = securityId ord then m else 0)"
  proof -
    have "getMatchedQuantityInCache q c2 = getMatchedQuantityInCache q ?c6"
      by (simp add: getMatchedQuantityInCache_def flds)
    also have "\<dots> = getMatchedQuantityInCache q ?c5
                + (if q = securityId (deref (heap ?c5) ?p) then m else 0)"
      unfolding m_def by (rule matchOrderInCache_cache)
    also have "\<dots> = getMatchedQuantityInCache q c + (if q = securityId ord then m else 0)"
      by (simp add: getMatchedQuantityInCache_def)
    finally show ?thesis .
  qed
qed

subsection \<open>The matcher on order values\<close>

lemma spec_match_filled: "isFilled ord \<Longrightarrow> spec_match ord xs = (ord, xs, 0)"
  by (induction xs) (auto simp: isFilled_def)

lemma spec_match_Cons:
  "spec_match ord (x # xs) =
     (let (o1, x1, m) = pairUp ord x; (o2, xs', t) = spec_match o1 xs in (o2, x1 # xs', m + t))"
  by (auto simp: pairUp_def Let_def spec_match_filled split: prod.splits)

declare spec_match.simps(2) [simp del]

lemma pairUp_sym: "pairUp x ord = (let (o', x', m) = pairUp ord x in (x', o', m))"
  by (auto simp: pairUp_def Let_def isFilled_def min.commute split: prod.splits)

lemma spec_match_snoc:
  "spec_match ord (xs @ [y]) =
     (let (o1, xs', t) = spec_match ord xs; (o2, y', m) = pairUp o1 y in (o2, xs' @ [y'], t + m))"
proof (induction xs arbitrary: ord)
  case Nil
  show ?case by (simp add: spec_match_Cons Let_def split: prod.splits)
next
  case (Cons x xs)
  show ?case
    by (simp only: append_Cons spec_match_Cons [of ord x] Cons.IH)
      (simp add: Let_def add.assoc split: prod.splits)
qed

lemma spec_match_all_snoc_buy:
  "spec_match_all (bs @ [b]) ss =
     (let (bs', ss1, t1) = spec_match_all bs ss; (b', ss2, t2) = spec_match b ss1
      in (bs' @ [b'], ss2, t1 + t2))"
  by (induction bs arbitrary: ss) (simp_all add: Let_def add.assoc split: prod.splits)

lemma spec_match_all_snoc_sell:
  "spec_match_all bs (ss @ [y]) =
     (let (bs', ss', t) = spec_match_all bs ss; (y', bs'', t1) = spec_match y bs'
      in (bs'', ss' @ [y'], t + t1))"
proof (induction bs arbitrary: ss y)
  case Nil
  show ?case by simp
next
  case (Cons b bs)
  obtain b1 ss1 t1 where m1: "spec_match b ss = (b1, ss1, t1)" by (cases "spec_match b ss") auto
  obtain b2 y1 t2 where p: "pairUp b1 y = (b2, y1, t2)" by (cases "pairUp b1 y") auto
  obtain bs' ss' t3 where a: "spec_match_all bs ss1 = (bs', ss', t3)"
    by (cases "spec_match_all bs ss1") auto
  obtain y2 bs'' t4 where m2: "spec_match y1 bs' = (y2, bs'', t4)" by (cases "spec_match y1 bs'") auto
  have ps: "pairUp y b1 = (y1, b2, t2)" using p by (simp add: pairUp_sym [of y b1])
  have s1: "spec_match b (ss @ [y]) = (b2, ss1 @ [y1], t1 + t2)"
    by (simp add: spec_match_snoc m1 p)
  have s2: "spec_match_all bs (ss1 @ [y1]) = (bs'', ss' @ [y2], t3 + t4)"
    by (simp add: Cons.IH a m2)
  have l: "spec_match_all (b # bs) (ss @ [y]) = (b2 # bs'', ss' @ [y2], (t1 + t2) + (t3 + t4))"
    by (simp add: s1 s2)
  have r: "spec_match y (b1 # bs') = (y2, b2 # bs'', t2 + t4)"
    by (simp add: spec_match_Cons ps m2)
  show ?case
    unfolding l by (simp add: m1 a r add.assoc add.left_commute)
qed

subsection \<open>The loop of the matcher computes \<open>spec_match\<close>\<close>

lemma map_deref_upd_notin:
  "p \<notin> set xs \<Longrightarrow> map (deref (h(p \<mapsto> v))) xs = map (deref h) xs"
  by (induction xs) auto

lemma matchLoop_spec:
  assumes "distinct xs" "a \<notin> set xs"
    and "spec_match (deref h a) (map (deref h) xs) = (ord', xs', t)"
    and "matchLoop a xs h m0 = (h', m')"
  shows "deref h' a = ord' \<and> map (deref h') xs = xs' \<and> m' = m0 + t
       \<and> (\<forall>b. b \<noteq> a \<longrightarrow> b \<notin> set xs \<longrightarrow> h' b = h b)"
  using assms
proof (induction xs arbitrary: h m0 ord' xs' t h' m')
  case Nil
  then show ?case by auto
next
  case (Cons x xs)
  let ?O = "deref h a" and ?X = "deref h x"
  have xa: "x \<noteq> a" and xn: "x \<notin> set xs" and an: "a \<notin> set xs" and dx: "distinct xs"
    using Cons.prems by auto
  obtain o1 x1 q1 where p: "pairUp ?O ?X = (o1, x1, q1)" by (cases "pairUp ?O ?X") auto
  obtain o2 ys t2 where s: "spec_match o1 (map (deref h) xs) = (o2, ys, t2)"
    by (cases "spec_match o1 (map (deref h) xs)") auto
  from Cons.prems(3) have res: "ord' = o2" "xs' = x1 # ys" "t = q1 + t2"
    by (simp_all add: spec_match_Cons p s)
  show ?case
  proof (cases "isFilled ?X \<or> company ?O = company ?X \<or> min (workingQty ?O) (workingQty ?X) = 0")
    case True
    then have p': "o1 = ?O" "x1 = ?X" "q1 = 0" using p by (auto simp: pairUp_def Let_def split: if_splits)
    from True Cons.prems(4) have ml: "matchLoop a xs h m0 = (h', m')"
      by (auto simp: Let_def split: if_splits)
    from s p' have s': "spec_match (deref h a) (map (deref h) xs) = (o2, ys, t2)" by simp
    from Cons.IH [OF dx an s' ml]
    have ih: "deref h' a = o2" "map (deref h') xs = ys" "m' = m0 + t2"
      "\<forall>b. b \<noteq> a \<longrightarrow> b \<notin> set xs \<longrightarrow> h' b = h b" by auto
    from ih(4) xa xn have "h' x = h x" by simp
    then have "deref h' x = ?X" by (simp add: deref_def)
    with ih res p' show ?thesis by auto
  next
    case False
    define q where "q = min (workingQty ?O) (workingQty ?X)"
    define h2 where "h2 = (h(a \<mapsto> fillLots q ?O))(x \<mapsto> fillLots q (deref (h(a \<mapsto> fillLots q ?O)) x))"
    from False have p': "o1 = fillLots q ?O" "x1 = fillLots q ?X" "q1 = q"
      using p by (auto simp: pairUp_def Let_def q_def split: if_splits)
    have d2a: "deref h2 a = o1" using xa by (simp add: p' h2_def)
    have d2x: "deref h2 x = x1" using xa by (simp add: p' h2_def)
    have m2: "map (deref h2) xs = map (deref h) xs"
      using xn an by (simp add: map_deref_upd_notin h2_def)
    have fr2: "b \<noteq> a \<Longrightarrow> b \<noteq> x \<Longrightarrow> h2 b = h b" for b by (simp add: h2_def)
    have step: "matchLoop a (x # xs) h m0 =
                  (if isFilled (deref h2 a) then (h2, m0 + q) else matchLoop a xs h2 (m0 + q))"
      using False by (simp add: Let_def q_def h2_def)
    show ?thesis
    proof (cases "isFilled o1")
      case True
      from step True Cons.prems(4) d2a have r: "h' = h2" "m' = m0 + q" by simp_all
      from s True have e: "o2 = o1" "ys = map (deref h) xs" "t2 = 0"
        by (simp_all add: spec_match_filled)
      have "deref h' a = ord'" by (simp add: r d2a e res)
      moreover have "map (deref h') (x # xs) = xs'" by (simp add: r d2x m2 e res)
      moreover have "m' = m0 + t" by (simp add: r e res p')
      moreover have "\<forall>b. b \<noteq> a \<longrightarrow> b \<notin> set (x # xs) \<longrightarrow> h' b = h b"
        by (simp add: r fr2)
      ultimately show ?thesis by blast
    next
      case nf: False
      from step nf Cons.prems(4) d2a have ml: "matchLoop a xs h2 (m0 + q) = (h', m')" by simp
      have s': "spec_match (deref h2 a) (map (deref h2) xs) = (o2, ys, t2)"
        by (simp only: d2a m2 s)
      from Cons.IH [OF dx an s' ml]
      have ih: "deref h' a = o2" "map (deref h') xs = ys" "m' = m0 + q + t2"
        "\<forall>b. b \<noteq> a \<longrightarrow> b \<notin> set xs \<longrightarrow> h' b = h2 b" by auto
      from ih(4) xa xn have "h' x = h2 x" by simp
      then have "deref h' x = x1" using d2x by (simp add: deref_def)
      then have "map (deref h') (x # xs) = xs'" by (simp add: ih res)
      moreover have "\<forall>b. b \<noteq> a \<longrightarrow> b \<notin> set (x # xs) \<longrightarrow> h' b = h b"
        using ih(4) fr2 by auto
      moreover have "m' = m0 + t" by (simp add: ih res p' add.assoc)
      moreover have "deref h' a = ord'" by (simp add: ih res)
      ultimately show ?thesis by blast
    qed
  qed
qed

subsection \<open>One call of the matcher computes \<open>spec_match\<close>\<close>

lemma wf_counterParties:
  assumes "wf c"
  shows "distinct (counterParties a c)" "a \<notin> set (counterParties a c)"
    "set (counterParties a c) \<subseteq> set (orders c)"
  using wf_long_distinct_set [OF assms] wf_short_distinct_set [OF assms]
  by (auto simp: counterParties_def)

lemma matchOrderInCache_unfold:
  "matchOrderInCache a c =
     (if isFilled (deref (heap c) a) then (0, c)
      else if counterParties a c = []
      then (0, if isBuySide (deref (heap c) a)
               then c\<lparr>securityShortOrdersIndex :=
                       touch (securityShortOrdersIndex c) (securityId (deref (heap c) a)) []\<rparr>
               else c\<lparr>securityLongOrdersIndex :=
                       touch (securityLongOrdersIndex c) (securityId (deref (heap c) a)) []\<rparr>)
      else (snd (matchLoop a (counterParties a c) (heap c) 0),
            (if isBuySide (deref (heap c) a)
             then c\<lparr>securityShortOrdersIndex :=
                     touch (securityShortOrdersIndex c) (securityId (deref (heap c) a)) []\<rparr>
             else c\<lparr>securityLongOrdersIndex :=
                     touch (securityLongOrdersIndex c) (securityId (deref (heap c) a)) []\<rparr>)
            \<lparr>heap := fst (matchLoop a (counterParties a c) (heap c) 0),
             matchedQuantity := (matchedQuantity c)
               (securityId (deref (heap c) a) \<mapsto>
                  subscript (matchedQuantity c) (securityId (deref (heap c) a)) 0
                    + snd (matchLoop a (counterParties a c) (heap c) 0))\<rparr>))"
  by (simp add: matchOrderInCache_def counterParties_def Let_def split: prod.splits)

lemma matchOrderInCache_spec:
  assumes wf: "wf c"
    and sp: "spec_match (deref (heap c) a) (map (deref (heap c)) (counterParties a c)) = (ord', xs', t)"
  shows "fst (matchOrderInCache a c) = t"
    and "deref (heap (snd (matchOrderInCache a c))) a = ord'"
    and "map (deref (heap (snd (matchOrderInCache a c)))) (counterParties a c) = xs'"
    and "b \<noteq> a \<Longrightarrow> b \<notin> set (counterParties a c) \<Longrightarrow> heap (snd (matchOrderInCache a c)) b = heap c b"
proof -
  let ?cps = "counterParties a c"
  let ?r = "matchOrderInCache a c"
  have "fst ?r = t \<and> deref (heap (snd ?r)) a = ord' \<and> map (deref (heap (snd ?r))) ?cps = xs'
      \<and> (\<forall>b. b \<noteq> a \<longrightarrow> b \<notin> set ?cps \<longrightarrow> heap (snd ?r) b = heap c b)"
  proof (cases "isFilled (deref (heap c) a)")
    case True
    with sp have "ord' = deref (heap c) a" "xs' = map (deref (heap c)) ?cps" "t = 0"
      by (simp_all add: spec_match_filled)
    with True show ?thesis by (simp add: matchOrderInCache_unfold)
  next
    case nf: False
    show ?thesis
    proof (cases "?cps = []")
      case True
      with sp have "ord' = deref (heap c) a" "xs' = []" "t = 0" by simp_all
      with True nf show ?thesis by (simp add: matchOrderInCache_unfold)
    next
      case False
      obtain h' m' where ml: "matchLoop a ?cps (heap c) 0 = (h', m')"
        by (cases "matchLoop a ?cps (heap c) 0")
      from matchLoop_spec [OF wf_counterParties(1,2) [OF wf] sp ml]
      have r: "deref h' a = ord'" "map (deref h') ?cps = xs'" "m' = t"
        "\<forall>b. b \<noteq> a \<longrightarrow> b \<notin> set ?cps \<longrightarrow> h' b = heap c b" by auto
      have "fst ?r = m'" "heap (snd ?r) = h'"
        using nf False by (simp_all add: matchOrderInCache_unfold ml)
      with r show ?thesis by simp
    qed
  qed
  then show "fst (matchOrderInCache a c) = t"
    and "deref (heap (snd (matchOrderInCache a c))) a = ord'"
    and "map (deref (heap (snd (matchOrderInCache a c)))) (counterParties a c) = xs'"
    and "b \<noteq> a \<Longrightarrow> b \<notin> set (counterParties a c) \<Longrightarrow> heap (snd (matchOrderInCache a c)) b = heap c b"
    by auto
qed


lemma map_deref_filter:
  "map (deref h) (filter (\<lambda>a. P (deref h a)) xs) = filter P (map (deref h) xs)"
  by (simp add: filter_map comp_def)

lemma wf_long_values:
  "wf c \<Longrightarrow> map (deref (heap c)) (subscript (securityLongOrdersIndex c) s []) =
     filter (\<lambda>x. securityId x = s \<and> isBuySide x) (rev (getAllOrders c))"
  by (simp add: wf_long_list getAllOrders_def rev_map
      map_deref_filter [where P = "\<lambda>x. securityId x = s \<and> isBuySide x"])

lemma wf_short_values:
  "wf c \<Longrightarrow> map (deref (heap c)) (subscript (securityShortOrdersIndex c) s []) =
     filter (\<lambda>x. securityId x = s \<and> \<not> isBuySide x) (rev (getAllOrders c))"
  by (simp add: wf_short_list getAllOrders_def rev_map
      map_deref_filter [where P = "\<lambda>x. securityId x = s \<and> \<not> isBuySide x"])

lemma counterParties_insertOrder:
  assumes wf: "wf c0"
  shows "counterParties (newPtr c0) (snd (insertOrder ord c0)) =
           (if isBuySide ord then subscript (securityShortOrdersIndex c0) (securityId ord) []
            else subscript (securityLongOrdersIndex c0) (securityId ord) [])"
    and "map (deref (heap (snd (insertOrder ord c0)))) (counterParties (newPtr c0) (snd (insertOrder ord c0)))
         = filter (\<lambda>x. securityId x = securityId ord \<and> isBuySide x \<noteq> isBuySide ord)
             (rev (getAllOrders c0))"
proof -
  let ?c = "snd (insertOrder ord c0)"
  show cp: "counterParties (newPtr c0) ?c =
           (if isBuySide ord then subscript (securityShortOrdersIndex c0) (securityId ord) []
            else subscript (securityLongOrdersIndex c0) (securityId ord) [])"
    by (simp add: counterParties_def)
  have "newPtr c0 \<notin> set (counterParties (newPtr c0) ?c)"
    unfolding cp using newPtr_fresh [of c0] wf_long_orders [OF wf] wf_short_orders [OF wf] by auto
  then have "map (deref (heap ?c)) (counterParties (newPtr c0) ?c)
             = map (deref (heap c0)) (counterParties (newPtr c0) ?c)"
    by (simp add: map_deref_upd_notin)
  also have "\<dots> = filter (\<lambda>x. securityId x = securityId ord \<and> isBuySide x \<noteq> isBuySide ord)
                       (rev (getAllOrders c0))"
    unfolding cp by (simp add: wf_long_values [OF wf] wf_short_values [OF wf])
  finally show "map (deref (heap ?c)) (counterParties (newPtr c0) ?c)
         = filter (\<lambda>x. securityId x = securityId ord \<and> isBuySide x \<noteq> isBuySide ord)
             (rev (getAllOrders c0))" .
qed


subsection \<open>What adding and cancelling an order leaves on its counterparties\<close>

lemma pairUp_conserves:
  assumes "pairUp b x = (b', x', m)"
  shows "unat (workingQty b) = unat (workingQty b') + unat m"
    and "unat (workingQty x) = unat (workingQty x') + unat m"
  using assms
  by (auto simp: pairUp_def Let_def fillLots_def min_def unat_sub word_le_nat_alt word_less_nat_alt
      split: if_splits)

lemma spec_match_conserves:
  assumes "spec_match ord xs = (ord', xs', t)"
  shows "unat (workingQty ord) = unat (workingQty ord') + unat t
       \<and> sum_list (map (\<lambda>x. unat (workingQty x)) xs)
           = sum_list (map (\<lambda>x. unat (workingQty x)) xs') + unat t"
  using assms
proof (induction xs arbitrary: ord ord' xs' t)
  case Nil
  then show ?case by simp
next
  case (Cons x xs)
  obtain o1 x1 m where p: "pairUp ord x = (o1, x1, m)" by (cases "pairUp ord x") auto
  obtain o2 ys t2 where r: "spec_match o1 xs = (o2, ys, t2)" by (cases "spec_match o1 xs") auto
  have res: "ord' = o2" "xs' = x1 # ys" "t = m + t2"
    using Cons.prems p r by (simp_all add: spec_match_Cons)
  note ih = Cons.IH [OF r]
  note pc = pairUp_conserves [OF p]
  have "unat m + unat t2 \<le> unat (workingQty ord)" using ih pc by simp
  also have "\<dots> < 2 ^ LENGTH(32)" using unsigned_less [of "workingQty ord"] by simp
  finally have "unat (m + t2) = unat m + unat t2" by (simp only: unat_add_lem)
  then show ?case unfolding res using ih pc by simp
qed

lemma add_then_cancel_fills:
  assumes wf: "wf c" and new: "\<not> exists_order (orderId ord) c"
  defines "c2 \<equiv> cancelOrder (orderId ord) (addOrder True ord c)"
  defines "cps \<equiv> (if isBuySide ord
                    then subscript (securityShortOrdersIndex c) (securityId ord) []
                    else subscript (securityLongOrdersIndex c) (securityId ord) [])"
  assumes sp: "spec_match ord (map (deref (heap c)) cps) = (ord', xs', t)"
  shows "b \<notin> set cps \<Longrightarrow> heap c2 b = heap c b"
    and "map (deref (heap c2)) cps = xs'"
    and "fst (matchOrderInCache (newPtr c) (snd (insertOrder ord c))) = t"
proof -
  let ?i = "orderId ord"
  let ?p = "newPtr c"
  let ?c5 = "snd (insertOrder ord c)"
  let ?c6 = "snd (matchOrderInCache ?p ?c5)"
  have w5: "wf ?c5" using wf new by (rule wf_insertOrder)
  have fresh: "?p \<notin> set (orders c)" by (rule newPtr_fresh)
  have pdom: "heap c ?p = None" using wf fresh by (auto simp: wf_def wf_store_def)
  have cp: "counterParties ?p ?c5 = cps"
    unfolding cps_def by (rule counterParties_insertOrder(1) [OF wf])
  have pn: "?p \<notin> set cps"
    using fresh wf_long_orders [OF wf, of "securityId ord"] wf_short_orders [OF wf, of "securityId ord"]
    by (auto simp: cps_def)
  have v5: "map (deref (heap ?c5)) cps = map (deref (heap c)) cps"
    using pn by (simp add: map_deref_upd_notin)
  have sp5: "spec_match (deref (heap ?c5) ?p) (map (deref (heap ?c5)) (counterParties ?p ?c5))
             = (ord', xs', t)"
    using sp by (simp only: cp v5) simp
  note m = matchOrderInCache_spec [OF w5 sp5, unfolded cp]
  have none: "map_of (orderIndex c) ?i = None" using new by (simp add: exists_order_def)
  have some: "map_of (orderIndex ?c6) ?i = Some ?p"
    using none by (simp add: map_of_index_insert)
  have nz: "\<not> (0 < (0::u32) \<and> qty (deref (heap ?c6) ?p) < 0)" by simp
  have h2: "heap c2 = (heap ?c6)(?p := None)"
    unfolding c2_def cancelOrder_def addOrder_unfold [OF new] if_True
    by (rule cancelSingleOrder_fields(2) [OF some nz])
  show "fst (matchOrderInCache ?p ?c5) = t" by (rule m(1))
  show "map (deref (heap c2)) cps = xs'"
  proof -
    have "map (deref (heap c2)) cps = map (deref (heap ?c6)) cps"
      using pn by (intro map_cong) (auto simp: h2 deref_def)
    then show ?thesis using m(3) by simp
  qed
  assume b: "b \<notin> set cps"
  show "heap c2 b = heap c b"
  proof (cases "b = ?p")
    case True
    then show ?thesis using pdom by (simp add: h2)
  next
    case False
    then show ?thesis using m(4) [OF False b] by (simp add: h2)
  qed
qed


section \<open>Eager and lazy matching\<close>

subsection \<open>The sides of a security under insertion and matching\<close>

lemma insertOrder_buys:
  assumes "wf c"
  shows "buys s (snd (insertOrder ord c)) =
           buys s c @ (if securityId ord = s \<and> isBuySide ord then [ord] else [])"
proof -
  have "newPtr c \<notin> set (subscript (securityLongOrdersIndex c) s [])"
    using newPtr_fresh [of c] wf_long_orders [OF assms, of s] by auto
  then show ?thesis by (simp add: buys_def map_deref_upd_notin)
qed

lemma insertOrder_sells:
  assumes "wf c"
  shows "sells s (snd (insertOrder ord c)) =
           sells s c @ (if securityId ord = s \<and> \<not> isBuySide ord then [ord] else [])"
proof -
  have "newPtr c \<notin> set (subscript (securityShortOrdersIndex c) s [])"
    using newPtr_fresh [of c] wf_short_orders [OF assms, of s] by auto
  then show ?thesis by (simp add: sells_def map_deref_upd_notin)
qed

lemma counterParties_values:
  "map (deref (heap c)) (counterParties a c) =
     (if isBuySide (deref (heap c) a) then sells (securityId (deref (heap c) a)) c
      else buys (securityId (deref (heap c) a)) c)"
  by (simp add: counterParties_def buys_def sells_def)

lemma matchOrderInCache_frame_map:
  assumes wf: "wf c"
    and sp: "spec_match (deref (heap c) a) (map (deref (heap c)) (counterParties a c)) = (ord', xs', t)"
    and dj: "set L \<inter> set (counterParties a c) = {}"
  shows "map (deref (heap (snd (matchOrderInCache a c)))) L =
           map (\<lambda>b. if b = a then ord' else deref (heap c) b) L"
proof (rule map_cong [OF refl])
  fix b assume "b \<in> set L"
  then have n: "b \<notin> set (counterParties a c)" using dj by auto
  show "deref (heap (snd (matchOrderInCache a c))) b = (if b = a then ord' else deref (heap c) b)"
  proof (cases "b = a")
    case True
    then show ?thesis using matchOrderInCache_spec(2) [OF wf sp] by simp
  next
    case False
    then show ?thesis using matchOrderInCache_spec(4) [OF wf sp False n] by (simp add: deref_def)
  qed
qed

text \<open>A match leaves the sides of the other securities as they are.\<close>

lemma wf_counterParties_security:
  assumes "wf c" "b \<in> set (counterParties a c)"
  shows "securityId (deref (heap c) b) = securityId (deref (heap c) a)"
    and "isBuySide (deref (heap c) b) \<noteq> isBuySide (deref (heap c) a)"
  using assms wf_long_distinct_set(2) [OF assms(1)] wf_short_distinct_set(2) [OF assms(1)]
  by (auto simp: counterParties_def split: if_splits)

lemma matchOrderInCache_other_security:
  assumes wf: "wf c" and a: "a \<in> set (orders c)" and ne: "s \<noteq> securityId (deref (heap c) a)"
  shows "buys s (snd (matchOrderInCache a c)) = buys s c"
    and "sells s (snd (matchOrderInCache a c)) = sells s c"
    and "getMatchedQuantityInCache s (snd (matchOrderInCache a c)) = getMatchedQuantityInCache s c"
proof -
  obtain ord' xs' t where
    sp: "spec_match (deref (heap c) a) (map (deref (heap c)) (counterParties a c)) = (ord', xs', t)"
    by (cases "spec_match (deref (heap c) a) (map (deref (heap c)) (counterParties a c))") auto
  have fr: "set L \<subseteq> {b \<in> set (orders c). securityId (deref (heap c) b) = s} \<Longrightarrow>
            map (deref (heap (snd (matchOrderInCache a c)))) L = map (deref (heap c)) L" for L
  proof -
    assume L: "set L \<subseteq> {b \<in> set (orders c). securityId (deref (heap c) b) = s}"
    have dj: "set L \<inter> set (counterParties a c) = {}"
      using L wf_counterParties_security(1) [OF wf] ne by fastforce
    have "a \<notin> set L" using L ne by auto
    then have "map (\<lambda>b. if b = a then ord' else deref (heap c) b) L = map (deref (heap c)) L"
      by (intro map_cong) auto
    with matchOrderInCache_frame_map [OF wf sp dj] show ?thesis by simp
  qed
  show "buys s (snd (matchOrderInCache a c)) = buys s c"
    unfolding buys_def matchOrderInCache_fields
    by (rule fr) (auto simp: wf_long_distinct_set [OF wf])
  show "sells s (snd (matchOrderInCache a c)) = sells s c"
    unfolding sells_def matchOrderInCache_fields
    by (rule fr) (auto simp: wf_short_distinct_set [OF wf])
  show "getMatchedQuantityInCache s (snd (matchOrderInCache a c)) = getMatchedQuantityInCache s c"
    using ne by (simp add: matchOrderInCache_cache)
qed


lemma matchOrderInCache_buy_views:
  assumes wf: "wf c" and a: "a \<in> set (orders c)"
    and buy: "isBuySide (deref (heap c) a)"
    and sp: "spec_match (deref (heap c) a) (sells (securityId (deref (heap c) a)) c) = (ord', xs', t)"
  shows "fst (matchOrderInCache a c) = t"
    and "sells (securityId (deref (heap c) a)) (snd (matchOrderInCache a c)) = xs'"
    and "set L \<subseteq> {b \<in> set (orders c). isBuySide (deref (heap c) b)} \<Longrightarrow>
         map (deref (heap (snd (matchOrderInCache a c)))) L =
           map (\<lambda>b. if b = a then ord' else deref (heap c) b) L"
proof -
  have cv: "map (deref (heap c)) (counterParties a c) = sells (securityId (deref (heap c) a)) c"
    using buy by (simp add: counterParties_values)
  have cp: "counterParties a c = subscript (securityShortOrdersIndex c) (securityId (deref (heap c) a)) []"
    using buy by (simp add: counterParties_def)
  note sp' = sp [folded cv]
  show "fst (matchOrderInCache a c) = t" by (rule matchOrderInCache_spec(1) [OF wf sp'])
  show "sells (securityId (deref (heap c) a)) (snd (matchOrderInCache a c)) = xs'"
    using matchOrderInCache_spec(3) [OF wf sp'] by (simp add: sells_def cp)
  assume L: "set L \<subseteq> {b \<in> set (orders c). isBuySide (deref (heap c) b)}"
  have "set L \<inter> set (counterParties a c) = {}"
    using L wf_counterParties_security(2) [OF wf, of _ a] buy by fastforce
  then show "map (deref (heap (snd (matchOrderInCache a c)))) L =
           map (\<lambda>b. if b = a then ord' else deref (heap c) b) L"
    by (rule matchOrderInCache_frame_map [OF wf sp'])
qed

lemma matchOrderInCache_sell_views:
  assumes wf: "wf c" and a: "a \<in> set (orders c)"
    and sell: "\<not> isBuySide (deref (heap c) a)"
    and sp: "spec_match (deref (heap c) a) (buys (securityId (deref (heap c) a)) c) = (ord', xs', t)"
  shows "fst (matchOrderInCache a c) = t"
    and "buys (securityId (deref (heap c) a)) (snd (matchOrderInCache a c)) = xs'"
    and "set L \<subseteq> {b \<in> set (orders c). \<not> isBuySide (deref (heap c) b)} \<Longrightarrow>
         map (deref (heap (snd (matchOrderInCache a c)))) L =
           map (\<lambda>b. if b = a then ord' else deref (heap c) b) L"
proof -
  have cv: "map (deref (heap c)) (counterParties a c) = buys (securityId (deref (heap c) a)) c"
    using sell by (simp add: counterParties_values)
  have cp: "counterParties a c = subscript (securityLongOrdersIndex c) (securityId (deref (heap c) a)) []"
    using sell by (simp add: counterParties_def)
  note sp' = sp [folded cv]
  show "fst (matchOrderInCache a c) = t" by (rule matchOrderInCache_spec(1) [OF wf sp'])
  show "buys (securityId (deref (heap c) a)) (snd (matchOrderInCache a c)) = xs'"
    using matchOrderInCache_spec(3) [OF wf sp'] by (simp add: buys_def cp)
  assume L: "set L \<subseteq> {b \<in> set (orders c). \<not> isBuySide (deref (heap c) b)}"
  have "set L \<inter> set (counterParties a c) = {}"
    using L wf_counterParties_security(2) [OF wf, of _ a] sell by fastforce
  then show "map (deref (heap (snd (matchOrderInCache a c)))) L =
           map (\<lambda>b. if b = a then ord' else deref (heap c) b) L"
    by (rule matchOrderInCache_frame_map [OF wf sp'])
qed

subsection \<open>What one addOrder does to the two sides of a security\<close>

lemma addOrder_lazy_views:
  assumes wf: "wf c" and new: "\<not> exists_order (orderId ord) c"
  shows "buys s (addOrder False ord c) =
           buys s c @ (if securityId ord = s \<and> isBuySide ord then [ord] else [])"
    and "sells s (addOrder False ord c) =
           sells s c @ (if securityId ord = s \<and> \<not> isBuySide ord then [ord] else [])"
    and "getMatchedQuantityInCache s (addOrder False ord c) = getMatchedQuantityInCache s c"
  using insertOrder_buys [OF wf, of s ord] insertOrder_sells [OF wf, of s ord]
  by (simp_all add: addOrder_unfold [OF new] getMatchedQuantityInCache_def)

lemma addOrder_eager_other:
  assumes wf: "wf c" and new: "\<not> exists_order (orderId ord) c" and ne: "s \<noteq> securityId ord"
  shows "buys s (addOrder True ord c) = buys s c"
    and "sells s (addOrder True ord c) = sells s c"
    and "getMatchedQuantityInCache s (addOrder True ord c) = getMatchedQuantityInCache s c"
proof -
  let ?c = "snd (insertOrder ord c)"
  have w: "wf ?c" using wf new by (rule wf_insertOrder)
  have p: "newPtr c \<in> set (orders ?c)" by simp
  have ne': "s \<noteq> securityId (deref (heap ?c) (newPtr c))" using ne by simp
  note m = matchOrderInCache_other_security [OF w p ne']
  show "buys s (addOrder True ord c) = buys s c"
    using m(1) insertOrder_buys [OF wf, of s ord] ne by (simp add: addOrder_unfold [OF new])
  show "sells s (addOrder True ord c) = sells s c"
    using m(2) insertOrder_sells [OF wf, of s ord] ne by (simp add: addOrder_unfold [OF new])
  show "getMatchedQuantityInCache s (addOrder True ord c) = getMatchedQuantityInCache s c"
    using m(3) by (simp add: addOrder_unfold [OF new] getMatchedQuantityInCache_def)
qed

lemma addOrder_eager_buy:
  assumes wf: "wf c" and new: "\<not> exists_order (orderId ord) c" and buy: "isBuySide ord"
    and sp: "spec_match ord (sells (securityId ord) c) = (ord', xs', t)"
  shows "buys (securityId ord) (addOrder True ord c) = buys (securityId ord) c @ [ord']"
    and "sells (securityId ord) (addOrder True ord c) = xs'"
    and "getMatchedQuantityInCache (securityId ord) (addOrder True ord c) =
           getMatchedQuantityInCache (securityId ord) c + t"
proof -
  let ?p = "newPtr c"
  let ?c = "snd (insertOrder ord c)"
  let ?s = "securityId ord"
  let ?L = "subscript (securityLongOrdersIndex c) ?s []"
  have w: "wf ?c" using wf new by (rule wf_insertOrder)
  have p: "?p \<in> set (orders ?c)" by simp
  have d: "deref (heap ?c) ?p = ord" by simp
  have buy': "isBuySide (deref (heap ?c) ?p)" using buy by simp
  have sv: "sells ?s ?c = sells ?s c" using insertOrder_sells [OF wf, of ?s ord] buy by simp
  have sp': "spec_match (deref (heap ?c) ?p) (sells (securityId (deref (heap ?c) ?p)) ?c) = (ord', xs', t)"
    using sp by (simp only: d sv)
  note m = matchOrderInCache_buy_views [OF w p buy' sp']
  have fresh: "?p \<notin> set ?L" using newPtr_fresh [of c] wf_long_orders [OF wf, of ?s] by auto
  have Lsub: "set (?L @ [?p]) \<subseteq> {b \<in> set (orders ?c). isBuySide (deref (heap ?c) b)}"
    using wf_long_distinct_set(2) [OF wf, of ?s] buy fresh by auto
  have l: "subscript (securityLongOrdersIndex ?c) ?s [] = ?L @ [?p]"
    using buy by (simp add: subscript_def)
  have "buys ?s (addOrder True ord c) = map (deref (heap (snd (matchOrderInCache ?p ?c)))) (?L @ [?p])"
    by (simp only: addOrder_unfold [OF new] buys_def matchOrderInCache_fields l if_True)
  also have "\<dots> = map (\<lambda>b. if b = ?p then ord' else deref (heap ?c) b) (?L @ [?p])"
    by (rule m(3) [OF Lsub])
  also have "\<dots> = map (deref (heap c)) ?L @ [ord']"
    using fresh by (auto intro: map_cong)
  finally show "buys ?s (addOrder True ord c) = buys ?s c @ [ord']" by (simp add: buys_def)
  show "sells ?s (addOrder True ord c) = xs'"
    using m(2) by (simp add: addOrder_unfold [OF new])
  show "getMatchedQuantityInCache ?s (addOrder True ord c) = getMatchedQuantityInCache ?s c + t"
    using m(1) matchOrderInCache_cache [of ?s ?p ?c]
    by (simp add: addOrder_unfold [OF new] getMatchedQuantityInCache_def)
qed

lemma addOrder_eager_sell:
  assumes wf: "wf c" and new: "\<not> exists_order (orderId ord) c" and sell: "\<not> isBuySide ord"
    and sp: "spec_match ord (buys (securityId ord) c) = (ord', xs', t)"
  shows "sells (securityId ord) (addOrder True ord c) = sells (securityId ord) c @ [ord']"
    and "buys (securityId ord) (addOrder True ord c) = xs'"
    and "getMatchedQuantityInCache (securityId ord) (addOrder True ord c) =
           getMatchedQuantityInCache (securityId ord) c + t"
proof -
  let ?p = "newPtr c"
  let ?c = "snd (insertOrder ord c)"
  let ?s = "securityId ord"
  let ?L = "subscript (securityShortOrdersIndex c) ?s []"
  have w: "wf ?c" using wf new by (rule wf_insertOrder)
  have p: "?p \<in> set (orders ?c)" by simp
  have d: "deref (heap ?c) ?p = ord" by simp
  have sell': "\<not> isBuySide (deref (heap ?c) ?p)" using sell by simp
  have sv: "buys ?s ?c = buys ?s c" using insertOrder_buys [OF wf, of ?s ord] sell by simp
  have sp': "spec_match (deref (heap ?c) ?p) (buys (securityId (deref (heap ?c) ?p)) ?c) = (ord', xs', t)"
    using sp by (simp only: d sv)
  note m = matchOrderInCache_sell_views [OF w p sell' sp']
  have fresh: "?p \<notin> set ?L" using newPtr_fresh [of c] wf_short_orders [OF wf, of ?s] by auto
  have Lsub: "set (?L @ [?p]) \<subseteq> {b \<in> set (orders ?c). \<not> isBuySide (deref (heap ?c) b)}"
    using wf_short_distinct_set(2) [OF wf, of ?s] sell fresh by auto
  have l: "subscript (securityShortOrdersIndex ?c) ?s [] = ?L @ [?p]"
    using sell by (simp add: subscript_def)
  have "sells ?s (addOrder True ord c) = map (deref (heap (snd (matchOrderInCache ?p ?c)))) (?L @ [?p])"
    by (simp only: addOrder_unfold [OF new] sells_def matchOrderInCache_fields l if_True)
  also have "\<dots> = map (\<lambda>b. if b = ?p then ord' else deref (heap ?c) b) (?L @ [?p])"
    by (rule m(3) [OF Lsub])
  also have "\<dots> = map (deref (heap c)) ?L @ [ord']"
    using fresh by (auto intro: map_cong)
  finally show "sells ?s (addOrder True ord c) = sells ?s c @ [ord']" by (simp add: sells_def)
  show "buys ?s (addOrder True ord c) = xs'"
    using m(2) by (simp add: addOrder_unfold [OF new])
  show "getMatchedQuantityInCache ?s (addOrder True ord c) = getMatchedQuantityInCache ?s c + t"
    using m(1) matchOrderInCache_cache [of ?s ?p ?c]
    by (simp add: addOrder_unfold [OF new] getMatchedQuantityInCache_def)
qed


subsection \<open>The lazy query computes the specification-level matching\<close>

lemma matchAll_spec:
  assumes "wf c" "distinct ps"
    and "set ps \<subseteq> set (subscript (securityLongOrdersIndex c) s [])"
    and "spec_match_all (map (deref (heap c)) ps) (sells s c) = (bs', ss', t)"
  shows "fst (matchAll ps q c) = q + t
       \<and> sells s (snd (matchAll ps q c)) = ss'
       \<and> map (deref (heap (snd (matchAll ps q c)))) ps = bs'
       \<and> getMatchedQuantityInCache s (snd (matchAll ps q c)) = getMatchedQuantityInCache s c + t
       \<and> (\<forall>b \<in> set (subscript (securityLongOrdersIndex c) s []) - set ps.
            deref (heap (snd (matchAll ps q c))) b = deref (heap c) b)
       \<and> (\<forall>s'. s' \<noteq> s \<longrightarrow>
            buys s' (snd (matchAll ps q c)) = buys s' c
          \<and> sells s' (snd (matchAll ps q c)) = sells s' c
          \<and> getMatchedQuantityInCache s' (snd (matchAll ps q c)) = getMatchedQuantityInCache s' c)"
  using assms
proof (induction ps arbitrary: c q bs' ss' t)
  case Nil
  then show ?case by simp
next
  case (Cons p ps)
  let ?Ls = "subscript (securityLongOrdersIndex c) s []"
  let ?c1 = "snd (matchOrderInCache p c)"
  note wf = Cons.prems(1)
  have pL: "p \<in> set ?Ls" using Cons.prems(3) by simp
  have p: "p \<in> set (orders c)" and sec: "securityId (deref (heap c) p) = s"
    and buy: "isBuySide (deref (heap c) p)"
    using pL wf_long_distinct_set(2) [OF wf, of s] by auto
  obtain b1 ss1 t1 where sp1: "spec_match (deref (heap c) p) (sells s c) = (b1, ss1, t1)"
    by (cases "spec_match (deref (heap c) p) (sells s c)") auto
  obtain bs2 ss2 t2 where sp2: "spec_match_all (map (deref (heap c)) ps) ss1 = (bs2, ss2, t2)"
    by (cases "spec_match_all (map (deref (heap c)) ps) ss1") auto
  have res: "bs' = b1 # bs2" "ss' = ss2" "t = t1 + t2"
    using Cons.prems(4) sp1 sp2 by simp_all
  note m = matchOrderInCache_buy_views [OF wf p buy, unfolded sec, OF sp1]
  have w1: "wf ?c1" using wf p by (rule wf_matchOrderInCache)
  have Ls1: "subscript (securityLongOrdersIndex ?c1) s [] = ?Ls" by simp
  have buyers: "set ?Ls \<subseteq> {b \<in> set (orders c). isBuySide (deref (heap c) b)}"
    using wf_long_distinct_set(2) [OF wf, of s] by auto
  have one: "deref (heap ?c1) b = (if b = p then b1 else deref (heap c) b)" if "b \<in> set ?Ls" for b
    using m(3) [of "[b]"] that buyers by auto
  have pn: "p \<notin> set ps" and d: "distinct ps" using Cons.prems(2) by simp_all
  have sub: "set ps \<subseteq> set ?Ls" using Cons.prems(3) by simp
  have same: "map (deref (heap ?c1)) ps = map (deref (heap c)) ps"
    using one sub pn by (intro map_cong) auto
  have sp2': "spec_match_all (map (deref (heap ?c1)) ps) (sells s ?c1) = (bs2, ss2, t2)"
    using sp2 by (simp only: same m(2))
  have sub1: "set ps \<subseteq> set (subscript (securityLongOrdersIndex ?c1) s [])"
    using sub by (simp only: Ls1)
  note ih = Cons.IH [OF w1 d sub1 sp2', of "q + t1", unfolded Ls1]
  have unf: "matchAll (p # ps) q c = matchAll ps (q + t1) ?c1"
    using m(1) by (cases "matchOrderInCache p c") simp
  have other: "buys s' ?c1 = buys s' c \<and> sells s' ?c1 = sells s' c
      \<and> getMatchedQuantityInCache s' ?c1 = getMatchedQuantityInCache s' c" if "s' \<noteq> s" for s'
    using matchOrderInCache_other_security [OF wf p, of s'] that sec by simp
  have cache: "getMatchedQuantityInCache s ?c1 = getMatchedQuantityInCache s c + t1"
    using matchOrderInCache_cache [of s p c] m(1) sec by simp
  have hd: "deref (heap (snd (matchAll ps (q + t1) ?c1))) p = b1"
    using ih pL pn one [OF pL] by simp
  have fr: "deref (heap (snd (matchAll ps (q + t1) ?c1))) b = deref (heap c) b"
    if "b \<in> set ?Ls - set (p # ps)" for b
    using ih that one [of b] by simp
  show ?case
    unfolding unf res
    using ih hd fr other cache by (simp add: add.assoc)
qed


subsection \<open>Orders that do not trade can be left out\<close>

lemma static_workingQty_eq: "static x = static y \<Longrightarrow> workingQty x = workingQty y \<Longrightarrow> x = y"
  by (cases x, cases y) (simp add: static_def)

lemma fills_refl [simp]: "fills x x"
  by (simp add: fills_def)

lemma fills_trans: "fills x y \<Longrightarrow> fills y z \<Longrightarrow> fills x z"
  by (auto simp: fills_def)

lemma fills_sandwich: "fills x y \<Longrightarrow> fills y x \<Longrightarrow> y = x"
  by (auto simp: fills_def intro: static_workingQty_eq)

lemma fills_fillLots: "fills x (fillLots n x)"
  by (simp add: fills_def workingQty_fillLots_le)

lemma pairUp_fills:
  assumes "pairUp b x = (b', x', m)"
  shows "fills b b'" "fills x x'"
  using assms by (auto simp: pairUp_def Let_def fills_fillLots split: if_splits)

lemma pairUp_unchanged:
  assumes "pairUp b x = (b', x', m)" "b' = b \<or> x' = x"
  shows "m = 0 \<and> b' = b \<and> x' = x"
proof -
  note c = pairUp_conserves [OF assms(1)]
  from assms(2) c have "unat m = 0" by auto
  then have m: "m = 0" by (simp add: unat_eq_0)
  with c have "workingQty b' = workingQty b" "workingQty x' = workingQty x"
    by (simp_all add: word_unat_eq_iff)
  moreover have "static b' = static b" "static x' = static x"
    using pairUp_fills [OF assms(1)] by (simp_all add: fills_def)
  ultimately show ?thesis using m by (auto intro: static_workingQty_eq)
qed

lemma spec_match_fills:
  assumes "spec_match b ss = (b', ss', t)"
  shows "fills b b' \<and> list_all2 fills ss ss'"
  using assms
proof (induction ss arbitrary: b b' ss' t)
  case Nil
  then show ?case by simp
next
  case (Cons x xs)
  obtain o1 x1 m where p: "pairUp b x = (o1, x1, m)" by (cases "pairUp b x") auto
  obtain o2 ys t2 where r: "spec_match o1 xs = (o2, ys, t2)" by (cases "spec_match o1 xs") auto
  have res: "b' = o2" "ss' = x1 # ys" using Cons.prems p r by (simp_all add: spec_match_Cons)
  show ?case
    unfolding res using Cons.IH [OF r] pairUp_fills [OF p] by (auto intro: fills_trans)
qed

lemma list_all2_fills_trans:
  "list_all2 fills xs ys \<Longrightarrow> list_all2 fills ys zs \<Longrightarrow> list_all2 fills xs zs"
  by (rule list_all2_trans [of fills fills fills]) (auto intro: fills_trans)

lemma spec_match_all_fills:
  assumes "spec_match_all bs ss = (bs', ss', t)"
  shows "list_all2 fills bs bs' \<and> list_all2 fills ss ss'"
  using assms
proof (induction bs arbitrary: ss bs' ss' t)
  case Nil
  then show ?case by (simp add: list_all2_refl)
next
  case (Cons b bs)
  obtain b1 ss1 t1 where m: "spec_match b ss = (b1, ss1, t1)" by (cases "spec_match b ss") auto
  obtain bs2 ss2 t2 where r: "spec_match_all bs ss1 = (bs2, ss2, t2)"
    by (cases "spec_match_all bs ss1") auto
  have res: "bs' = b1 # bs2" "ss' = ss2" using Cons.prems m r by simp_all
  show ?case
    unfolding res using Cons.IH [OF r] spec_match_fills [OF m]
    by (auto intro: list_all2_fills_trans)
qed

lemma untouched_between1:
  assumes stat: "\<And>x y. static y = static x \<Longrightarrow> P y = P x"
    and "fills x y" "fills y z" "untouched P x z"
  shows "untouched P x y \<and> untouched P y z"
proof (cases "P x")
  case True
  moreover have "static y = static x" using assms(2) by (simp add: fills_def)
  then have "P y = P x" by (rule stat)
  ultimately show ?thesis by (simp add: untouched_def)
next
  case False
  then have z: "z = x" using assms(4) by (simp add: untouched_def)
  then have "y = x" using assms(2,3) by (auto intro: fills_sandwich)
  then show ?thesis using z by (simp add: untouched_def)
qed

lemma untouched_between:
  assumes stat: "\<And>x y. static y = static x \<Longrightarrow> P y = P x"
    and "list_all2 fills xs ys" "list_all2 fills ys zs" "list_all2 (untouched P) xs zs"
  shows "list_all2 (untouched P) xs ys" "list_all2 (untouched P) ys zs"
proof -
  have len: "length xs = length ys" "length ys = length zs"
    using assms(2,3) by (simp_all add: list_all2_lengthD)
  have "untouched P (xs ! i) (ys ! i) \<and> untouched P (ys ! i) (zs ! i)" if "i < length xs" for i
  proof (rule untouched_between1 [OF stat])
    show "fills (xs ! i) (ys ! i)" using assms(2) that by (rule list_all2_nthD)
    show "fills (ys ! i) (zs ! i)" using assms(3) that len by (simp add: list_all2_nthD)
    show "untouched P (xs ! i) (zs ! i)" using assms(4) that by (rule list_all2_nthD)
  qed
  then show "list_all2 (untouched P) xs ys" "list_all2 (untouched P) ys zs"
    using len by (simp_all add: list_all2_conv_all_nth)
qed

lemma spec_match_subject_unchanged:
  assumes "spec_match b ss = (b, ss', t)"
  shows "ss' = ss \<and> t = 0"
  using assms
proof (induction ss arbitrary: ss' t)
  case Nil
  then show ?case by simp
next
  case (Cons x xs)
  obtain o1 x1 m where p: "pairUp b x = (o1, x1, m)" by (cases "pairUp b x") auto
  obtain o2 ys t2 where r: "spec_match o1 xs = (o2, ys, t2)" by (cases "spec_match o1 xs") auto
  have res: "b = o2" "ss' = x1 # ys" "t = m + t2"
    using Cons.prems p r by (simp_all add: spec_match_Cons)
  have "fills b o1" using pairUp_fills [OF p] by simp
  moreover have "fills o1 b" using spec_match_fills [OF r] res(1) by simp
  ultimately have o1: "o1 = b" by (rule fills_sandwich)
  note u = pairUp_unchanged [OF p disjI1 [OF o1]]
  have "spec_match b xs = (b, ys, t2)" using r o1 res(1) by simp
  from Cons.IH [OF this] u show ?case unfolding res(2,3) by simp
qed

lemma spec_match_filter:
  assumes stat: "\<And>x y. static y = static x \<Longrightarrow> P y = P x"
    and "spec_match b ss = (b', ss', t)" "list_all2 (untouched P) ss ss'"
  shows "spec_match b (filter P ss) = (b', filter P ss', t)"
  using assms(2,3)
proof (induction ss arbitrary: b b' ss' t)
  case Nil
  then show ?case by simp
next
  case (Cons x xs)
  obtain o1 x1 m where p: "pairUp b x = (o1, x1, m)" by (cases "pairUp b x") auto
  obtain o2 ys t2 where r: "spec_match o1 xs = (o2, ys, t2)" by (cases "spec_match o1 xs") auto
  have res: "b' = o2" "ss' = x1 # ys" "t = m + t2"
    using Cons.prems(1) p r by (simp_all add: spec_match_Cons)
  have ux: "untouched P x x1" and us: "list_all2 (untouched P) xs ys"
    using Cons.prems(2) res(2) by simp_all
  have "static x1 = static x" using pairUp_fills(2) [OF p] by (simp add: fills_def)
  then have px: "P x1 = P x" by (rule stat)
  note ih = Cons.IH [OF r us]
  show ?case
  proof (cases "P x")
    case True
    then show ?thesis unfolding res using px p ih by (simp add: spec_match_Cons)
  next
    case False
    then have "x1 = x" using ux by (simp add: untouched_def)
    with pairUp_unchanged [OF p] have "m = 0" "o1 = b" by simp_all
    then show ?thesis unfolding res using False px ih by simp
  qed
qed

lemma spec_match_all_filter:
  assumes stat: "\<And>x y. static y = static x \<Longrightarrow> P y = P x"
    and "spec_match_all bs ss = (bs', ss', t)"
    and "list_all2 (untouched P) bs bs'" "list_all2 (untouched P) ss ss'"
  shows "spec_match_all (filter P bs) (filter P ss) = (filter P bs', filter P ss', t)"
  using assms(2,3,4)
proof (induction bs arbitrary: ss bs' ss' t)
  case Nil
  then show ?case by simp
next
  case (Cons b bs)
  obtain b1 ss1 t1 where m: "spec_match b ss = (b1, ss1, t1)" by (cases "spec_match b ss") auto
  obtain bs2 ss2 t2 where r: "spec_match_all bs ss1 = (bs2, ss2, t2)"
    by (cases "spec_match_all bs ss1") auto
  have res: "bs' = b1 # bs2" "ss' = ss2" "t = t1 + t2" using Cons.prems(1) m r by simp_all
  have ub: "untouched P b b1" and ubs: "list_all2 (untouched P) bs bs2"
    using Cons.prems(2) res(1) by simp_all
  have uss: "list_all2 (untouched P) ss ss2" using Cons.prems(3) res(2) by simp
  note f1 = spec_match_fills [OF m]
  note f2 = spec_match_all_fills [OF r]
  have u: "list_all2 (untouched P) ss ss1" "list_all2 (untouched P) ss1 ss2"
    using untouched_between [of P ss ss1 ss2, OF stat] f1 f2 uss by simp_all
  have "static b1 = static b" using f1 by (simp add: fills_def)
  then have pb: "P b1 = P b" by (rule stat)
  note ih = Cons.IH [OF r ubs u(2)]
  show ?case
  proof (cases "P b")
    case True
    have "spec_match b (filter P ss) = (b1, filter P ss1, t1)"
      by (rule spec_match_filter [OF stat m u(1)])
    then show ?thesis unfolding res using True pb ih by simp
  next
    case False
    then have "b1 = b" using ub by (simp add: untouched_def)
    with m spec_match_subject_unchanged [of b ss ss1 t1] have "ss1 = ss" "t1 = 0" by simp_all
    then show ?thesis unfolding res using False pb ih by simp
  qed
qed


subsection \<open>The lazy query and the other securities\<close>

lemma touch_long_views:
  "buys x (c\<lparr>securityLongOrdersIndex := touch (securityLongOrdersIndex c) s []\<rparr>) = buys x c"
  "sells x (c\<lparr>securityLongOrdersIndex := touch (securityLongOrdersIndex c) s []\<rparr>) = sells x c"
  "getMatchedQuantityInCache x (c\<lparr>securityLongOrdersIndex := touch (securityLongOrdersIndex c) s []\<rparr>)
     = getMatchedQuantityInCache x c"
  by (simp_all add: buys_def sells_def getMatchedQuantityInCache_def)

lemma runPool_other_security:
  assumes wf: "wf c" and ne: "s' \<noteq> s"
  shows "buys s' (runPool left s c) = buys s' c"
    and "sells s' (runPool left s c) = sells s' c"
    and "getMatchedQuantityInCache s' (runPool left s c) = getMatchedQuantityInCache s' c"
proof -
  let ?longs = "subscript (securityLongOrdersIndex c) s []"
  let ?shorts = "subscript (securityShortOrdersIndex c) s []"
  have h: "heap (runPool left s c) a = heap c a" if "a \<notin> set ?longs" "a \<notin> set ?shorts" for a
    using that by (simp add: runPool_def Let_def)
  have fr: "map (deref (heap (runPool left s c))) L = map (deref (heap c)) L"
    if "set L \<subseteq> {b \<in> set (orders c). securityId (deref (heap c) b) = s'}" for L
  proof (rule map_cong [OF refl])
    fix a assume "a \<in> set L"
    then have "securityId (deref (heap c) a) = s'" using that by auto
    then have "a \<notin> set ?longs" "a \<notin> set ?shorts"
      using ne wf_long_distinct_set(2) [OF wf, of s] wf_short_distinct_set(2) [OF wf, of s] by auto
    then show "deref (heap (runPool left s c)) a = deref (heap c) a" by (simp add: deref_def h)
  qed
  show "buys s' (runPool left s c) = buys s' c"
    unfolding buys_def runPool_fields
    by (rule fr) (auto simp: wf_long_distinct_set [OF wf])
  show "sells s' (runPool left s c) = sells s' c"
    unfolding sells_def runPool_fields
    by (rule fr) (auto simp: wf_short_distinct_set [OF wf])
  show "getMatchedQuantityInCache s' (runPool left s c) = getMatchedQuantityInCache s' c"
    using ne by (simp add: runPool_def Let_def getMatchedQuantityInCache_def)
qed

lemma lazy_query_other_security:
  assumes wf: "wf c" and ne: "s' \<noteq> s"
  shows "buys s' (snd (getMatchingSizeForSecurity False s c)) = buys s' c
       \<and> sells s' (snd (getMatchingSizeForSecurity False s c)) = sells s' c
       \<and> getMatchedQuantityInCache s' (snd (getMatchingSizeForSecurity False s c))
           = getMatchedQuantityInCache s' c"
proof -
  let ?c1 = "c\<lparr>securityLongOrdersIndex := touch (securityLongOrdersIndex c) s []\<rparr>"
  let ?L = "subscript (securityLongOrdersIndex c) s []"
  have w1: "wf ?c1" using wf by (rule wf_touch_long)
  have d: "distinct ?L" by (rule wf_long_distinct_set(1) [OF wf])
  have sub: "set ?L \<subseteq> set (subscript (securityLongOrdersIndex ?c1) s [])" by simp
  obtain bs' ss' t where
    sp1: "spec_match_all (map (deref (heap ?c1)) ?L) (sells s ?c1) = (bs', ss', t)"
    by (cases "spec_match_all (map (deref (heap ?c1)) ?L) (sells s ?c1)") auto
  note ma = matchAll_spec [OF w1 d sub sp1, of 0, unfolded touch_long_views]
  note rp = runPool_other_security [OF w1 ne, of "threadPool ?c1", unfolded touch_long_views]
  show ?thesis
    using ma ne rp by (simp add: getMatchingSizeForSecurity_def Let_def)
qed

subsection \<open>Cancellations on the two sides of a security\<close>

lemma matchedQuantity_cancelSingleOrder [simp]:
  "matchedQuantity (cancelSingleOrder i m c) = matchedQuantity c"
  by (simp add: cancelSingleOrder_def Let_def split: option.splits)

lemma matchedQuantity_cancelOrders [simp]:
  "matchedQuantity (cancelOrders ks m c) = matchedQuantity c"
  unfolding cancelOrders_def by (induction ks arbitrary: c) simp_all

lemma cancel_step:
  assumes wf: "wf c" and cn: "isCancel opn"
  shows "getAllOrders (step cached opn c) = filter (\<lambda>x. \<not> removes opn x) (getAllOrders c)"
    and "matchedQuantity (step cached opn c) = matchedQuantity c"
    and "liveStep opn xs = filter (\<lambda>x. \<not> removes opn x) xs"
proof -
  have "getAllOrders (step cached opn c) = filter (\<lambda>x. \<not> removes opn x) (getAllOrders c)
      \<and> matchedQuantity (step cached opn c) = matchedQuantity c
      \<and> liveStep opn xs = filter (\<lambda>x. \<not> removes opn x) xs"
  proof (cases opn)
    case (CancelOrder i)
    then show ?thesis
      by (simp add: getAllOrders_cancelOrder [OF wf]) (simp add: cancelOrder_def)
  next
    case (CancelOrdersForUser u)
    then show ?thesis
      by (simp add: getAllOrders_cancelOrdersForUser [OF wf])
        (simp add: cancelOrdersForUser_def split: option.splits)
  next
    case (CancelOrdersForSecIdWithMinimumQty s m)
    then show ?thesis
      by (simp add: getAllOrders_cancelOrdersForSecIdWithMinimumQty [OF wf])
        (simp add: cancelOrdersForSecIdWithMinimumQty_def split: option.splits)
  qed (use cn in simp_all)
  then show "getAllOrders (step cached opn c) = filter (\<lambda>x. \<not> removes opn x) (getAllOrders c)"
    and "matchedQuantity (step cached opn c) = matchedQuantity c"
    and "liveStep opn xs = filter (\<lambda>x. \<not> removes opn x) xs"
    by simp_all
qed

lemma filter_views:
  assumes "wf c" "wf c'" "getAllOrders c' = filter K (getAllOrders c)"
  shows "buys s c' = filter K (buys s c)" "sells s c' = filter K (sells s c)"
  unfolding buys_def sells_def
  by (simp_all add: wf_long_values [OF assms(1)] wf_long_values [OF assms(2)]
      wf_short_values [OF assms(1)] wf_short_values [OF assms(2)] assms(3) rev_filter conj_commute)

lemma views_in_cache:
  assumes "wf c"
  shows "set (buys s c) \<subseteq> {x \<in> set (getAllOrders c). securityId x = s}"
    and "set (sells s c) \<subseteq> {x \<in> set (getAllOrders c). securityId x = s}"
  unfolding buys_def sells_def
  by (auto simp: wf_long_values [OF assms] wf_short_values [OF assms])

subsection \<open>Facts that do not depend on the matching mode\<close>

lemma run_static:
  "map static (getAllOrders (run cached ops emptyCache)) = rev (map static (liveOrders ops))"
  unfolding liveOrders_def
  by (rule live_run [OF wf_emptyCache]) (simp add: getAllOrders_def emptyCache_def)

lemma exists_order_mode:
  "exists_order i (run cached ops emptyCache) \<longleftrightarrow> i \<in> orderId ` set (liveOrders ops)"
proof -
  have "orderId ` set (getAllOrders (run cached ops emptyCache))
        = orderId ` set (map static (getAllOrders (run cached ops emptyCache)))"
    by (simp add: image_image)
  also have "\<dots> = orderId ` set (liveOrders ops)" by (simp add: run_static image_image)
  finally show ?thesis by (simp add: wf_exists_order [OF wf_run])
qed

lemma security_keys_mode:
  "dom (securityOrdersIndex (run False ops emptyCache)) = dom (securityOrdersIndex (run True ops emptyCache))"
proof (induction ops rule: rev_induct)
  case Nil
  show ?case by (simp add: run_def)
next
  case (snoc opn ops)
  have "newSecurityKey opn (run False ops emptyCache) = newSecurityKey opn (run True ops emptyCache)"
    by (cases opn) (simp_all add: exists_order_mode)
  with snoc show ?case by (simp add: run_snoc step_keys [OF wf_run])
qed


subsection \<open>A matched book is stable\<close>

lemma later_refl [simp]: "later x x"
  by (simp add: later_def)

lemma later_trans: "later x y \<Longrightarrow> later y z \<Longrightarrow> later x z"
  by (simp add: later_def)

lemma quiet_later: "quiet b s \<Longrightarrow> later b b' \<Longrightarrow> later s s' \<Longrightarrow> quiet b' s'"
  by (auto simp: quiet_def later_def)

lemma pairUp_later:
  assumes "pairUp b x = (b', x', m)"
  shows "later b b'" "later x x'" "quiet b' x'"
  using assms
  by (auto simp: pairUp_def Let_def later_def quiet_def fillLots_def isFilled_def min_def
      split: if_splits)

lemma pairUp_quiet: "quiet b x \<Longrightarrow> pairUp b x = (b, x, 0)"
  by (auto simp: pairUp_def quiet_def isFilled_def Let_def)

lemma list_all_quiet_later:
  "list_all2 later xs ys \<Longrightarrow> list_all (quiet b) xs \<Longrightarrow> later b b' \<Longrightarrow> list_all (quiet b') ys"
  by (induction rule: list_all2_induct) (auto intro: quiet_later)

lemma list_all2_later_trans:
  "list_all2 later xs ys \<Longrightarrow> list_all2 later ys zs \<Longrightarrow> list_all2 later xs zs"
  by (rule list_all2_trans [of later later later]) (auto intro: later_trans)

lemma list_all2_later_refl [simp]: "list_all2 later xs xs"
  by (simp add: list_all2_refl)

lemma spec_match_later:
  assumes "spec_match b ss = (b', ss', t)"
  shows "later b b' \<and> list_all2 later ss ss' \<and> list_all (quiet b') ss'"
  using assms
proof (induction ss arbitrary: b b' ss' t)
  case Nil
  then show ?case by simp
next
  case (Cons x xs)
  obtain o1 x1 m where p: "pairUp b x = (o1, x1, m)" by (cases "pairUp b x") auto
  obtain o2 xs' t2 where r: "spec_match o1 xs = (o2, xs', t2)" by (cases "spec_match o1 xs") auto
  have res: "b' = o2" "ss' = x1 # xs'" using Cons.prems p r by (simp_all add: spec_match_Cons)
  note ih = Cons.IH [OF r]
  note pl = pairUp_later [OF p]
  have "quiet o2 x1" using pl(3) ih by (auto intro: quiet_later)
  then show ?case unfolding res using ih pl by (auto intro: later_trans)
qed

lemma spec_match_quiet: "list_all (quiet b) ss \<Longrightarrow> spec_match b ss = (b, ss, 0)"
  by (induction ss) (simp_all add: spec_match_Cons pairUp_quiet)

lemma spec_match_all_later:
  assumes "spec_match_all bs ss = (bs', ss', t)"
  shows "list_all2 later bs bs' \<and> list_all2 later ss ss'
       \<and> list_all (\<lambda>b. list_all (quiet b) ss') bs'"
  using assms
proof (induction bs arbitrary: ss bs' ss' t)
  case Nil
  then show ?case by simp
next
  case (Cons b bs)
  obtain b1 ss1 t1 where m: "spec_match b ss = (b1, ss1, t1)" by (cases "spec_match b ss") auto
  obtain bs2 ss2 t2 where r: "spec_match_all bs ss1 = (bs2, ss2, t2)"
    by (cases "spec_match_all bs ss1") auto
  have res: "bs' = b1 # bs2" "ss' = ss2" using Cons.prems m r by simp_all
  note ih = Cons.IH [OF r]
  note ml = spec_match_later [OF m]
  have q: "list_all (quiet b1) ss2"
    using list_all_quiet_later [of ss1 ss2 b1 b1] ih ml by simp
  have l: "list_all2 later ss ss2"
    using list_all2_later_trans [of ss ss1 ss2] ih ml by simp
  show ?case unfolding res using ih ml q l by simp
qed

lemma spec_match_all_quiet:
  "list_all (\<lambda>b. list_all (quiet b) ss) bs \<Longrightarrow> spec_match_all bs ss = (bs, ss, 0)"
  by (induction bs) (simp_all add: spec_match_quiet)

lemma spec_match_all_stable:
  "spec_match_all bs ss = (bs', ss', t) \<Longrightarrow> spec_match_all bs' ss' = (bs', ss', 0)"
  using spec_match_all_later [of bs ss bs' ss' t] by (simp add: spec_match_all_quiet)

subsection \<open>The single-thread loop of the lazy query\<close>

lemma lazy_single_thread_views:
  assumes wf: "wf c" and key: "securityOrdersIndex c s \<noteq> None"
    and single: "\<not> multiThread c \<or> size_cache c < 2"
    and sp: "spec_match_all (buys s c) (sells s c) = (bs', ss', t)"
  shows "fst (getMatchingSizeForSecurity False s c) = t"
    and "buys s (snd (getMatchingSizeForSecurity False s c)) = bs'"
    and "sells s (snd (getMatchingSizeForSecurity False s c)) = ss'"
    and "getMatchedQuantityInCache s (snd (getMatchingSizeForSecurity False s c)) =
           getMatchedQuantityInCache s c + t"
proof -
  let ?c1 = "c\<lparr>securityLongOrdersIndex := touch (securityLongOrdersIndex c) s []\<rparr>"
  let ?L = "subscript (securityLongOrdersIndex c) s []"
  let ?r = "matchAll ?L 0 ?c1"
  obtain ids where key: "securityOrdersIndex c s = Some ids" using key by auto
  have w1: "wf ?c1" using wf by (rule wf_touch_long)
  have d: "distinct ?L" by (rule wf_long_distinct_set(1) [OF wf])
  have sub: "set ?L \<subseteq> set (subscript (securityLongOrdersIndex ?c1) s [])" by simp
  have sp1: "spec_match_all (map (deref (heap ?c1)) ?L) (sells s ?c1) = (bs', ss', t)"
    using sp by (simp add: buys_def sells_def)
  note ma = matchAll_spec [OF w1 d sub sp1, of 0, unfolded touch_long_views]
  have r: "getMatchingSizeForSecurity False s c = ?r"
    using key single by (auto simp: getMatchingSizeForSecurity_def Let_def)
  have L2: "subscript (securityLongOrdersIndex (snd ?r)) s [] = ?L"
    using matchAll_preserve [where f = "\<lambda>c. subscript (securityLongOrdersIndex c) s []", of ?L 0 ?c1]
    by simp
  show "fst (getMatchingSizeForSecurity False s c) = t" unfolding r using ma by simp
  show "buys s (snd (getMatchingSizeForSecurity False s c)) = bs'"
    unfolding r buys_def L2 using ma by simp
  show "sells s (snd (getMatchingSizeForSecurity False s c)) = ss'" unfolding r using ma by simp
  show "getMatchedQuantityInCache s (snd (getMatchingSizeForSecurity False s c)) =
           getMatchedQuantityInCache s c + t"
    unfolding r using ma by simp
qed

lemma getAllOrders_distinct_ids:
  assumes "wf c"
  shows "distinct (map orderId (getAllOrders c))"
proof -
  have "inj_on (\<lambda>a. orderId (deref (heap c) a)) (set (orders c))"
    using wf_id_inj [OF assms] by (auto intro: inj_onI)
  then show ?thesis
    using wf_orders_distinct [OF assms] by (simp add: getAllOrders_def distinct_map comp_def)
qed


subsection \<open>The two caches after the same calls\<close>

lemma lastAnswer_snoc:
  "lastAnswer s (ops @ [opn]) c v =
     (if isQueryOf s opn then fst (getMatchingSizeForSecurity True s (run True ops c))
      else lastAnswer s ops c v)"
  by (induction ops arbitrary: c v) (simp_all add: run_def)

lemma singleThreadQueries_snoc:
  "singleThreadQueries s (ops @ [opn]) c =
     (singleThreadQueries s ops c
      \<and> (isQueryOf s opn \<longrightarrow>
           \<not> multiThread (run False ops c) \<or> size_cache (run False ops c) < 2))"
  by (induction ops arbitrary: c) (auto simp: run_def)

lemma cancelsAlike_snoc:
  "cancelsAlike s (ops @ [opn]) ce cl =
     (cancelsAlike s ops ce cl
      \<and> (\<forall>x \<in> set (getAllOrders (run True ops ce)).
            securityId x = s \<and> removes opn x \<longrightarrow> x \<in> set (getAllOrders (run False ops cl))))"
  by (induction ops arbitrary: ce cl) (auto simp: run_def)

lemma lastAnswer_first: "s \<notin> set (queried ops) \<Longrightarrow> lastAnswer s ops c v = v"
  by (induction ops arbitrary: c v rule: queried.induct) auto

lemma removes_static: "static y = static x \<Longrightarrow> removes opn y = removes opn x"
  by (cases opn) (auto dest: static_fields)

lemma same_id_in_live:
  assumes "distinct (map orderId live)" "x \<in> set live" "y \<in> set live" "orderId x = orderId y"
  shows "x = y"
  using assms by (auto simp: distinct_map dest: inj_onD)

lemma untouched_sides:
  assumes f: "list_all2 fills xs ys"
    and live: "distinct (map orderId live)" "set xs \<subseteq> set live"
    and un: "\<forall>y \<in> set ys. removes opn y \<longrightarrow> y \<in> set live"
  shows "list_all2 (untouched (\<lambda>x. \<not> removes opn x)) xs ys"
proof -
  have len: "length xs = length ys" using f by (rule list_all2_lengthD)
  have "untouched (\<lambda>x. \<not> removes opn x) (xs ! i) (ys ! i)" if i: "i < length xs" for i
  proof -
    have fi: "fills (xs ! i) (ys ! i)" using f i by (rule list_all2_nthD)
    then have st: "static (ys ! i) = static (xs ! i)" by (simp add: fills_def)
    show ?thesis
      unfolding untouched_def
    proof (intro impI)
      assume "\<not> \<not> removes opn (xs ! i)"
      then have "removes opn (ys ! i)" using removes_static [OF st, of opn] by simp
      then have "ys ! i \<in> set live" using un i len by simp
      moreover have "xs ! i \<in> set live" using live(2) i by auto
      moreover have "orderId (ys ! i) = orderId (xs ! i)" using st by (rule static_fields(1))
      ultimately show "ys ! i = xs ! i" using live(1) by (auto intro: same_id_in_live)
    qed
  qed
  then show ?thesis using len by (simp add: list_all2_conv_all_nth)
qed

lemma step_security_keys_None:
  assumes "wf c" "securityOrdersIndex (step cached opn c) s = None"
  shows "securityOrdersIndex c s = None"
  using step_keys(2) [OF assms(1), of cached opn] assms(2) by (auto simp: domIff)

lemma pending_cancel:
  assumes b: "pending s ce cl"
    and wfe: "wf ce" and wfl: "wf cl"
    and cn: "isCancel opn"
    and un: "\<forall>x \<in> set (getAllOrders ce). securityId x = s \<and> removes opn x
                \<longrightarrow> x \<in> set (getAllOrders cl)"
  shows "pending s (step True opn ce) (step False opn cl)"
    and "getMatchedQuantityInCache s (step False opn cl) = getMatchedQuantityInCache s cl"
proof -
  let ?K = "\<lambda>x. \<not> removes opn x"
  let ?ce = "step True opn ce"
  let ?cl = "step False opn cl"
  let ?t = "getMatchedQuantityInCache s ce - getMatchedQuantityInCache s cl"
  have sp: "spec_match_all (buys s cl) (sells s cl) = (buys s ce, sells s ce, ?t)"
    and none: "securityOrdersIndex ce s = None \<Longrightarrow>
                 getMatchedQuantityInCache s ce = 0 \<and> getMatchedQuantityInCache s cl = 0"
    using b by (simp_all add: pending_def)
  note ce = cancel_step(1,2) [OF wfe cn, of True]
  note cl = cancel_step(1,2) [OF wfl cn, of False]
  have we: "wf ?ce" and wl: "wf ?cl" using wfe wfl by (simp_all add: wf_step)
  note ve = filter_views [OF wfe we ce(1)]
  note vl = filter_views [OF wfl wl cl(1)]
  have me: "getMatchedQuantityInCache s ?ce = getMatchedQuantityInCache s ce"
    and ml: "getMatchedQuantityInCache s ?cl = getMatchedQuantityInCache s cl"
    by (simp_all add: getMatchedQuantityInCache_def ce(2) cl(2))
  note f = spec_match_all_fills [OF sp]
  have live: "distinct (map orderId (getAllOrders cl))" by (rule getAllOrders_distinct_ids [OF wfl])
  have lb: "set (buys s cl) \<subseteq> set (getAllOrders cl)"
    and ls: "set (sells s cl) \<subseteq> set (getAllOrders cl)"
    using views_in_cache [OF wfl, of s] by auto
  have ub: "\<forall>y \<in> set (buys s ce). removes opn y \<longrightarrow> y \<in> set (getAllOrders cl)"
    using un views_in_cache(1) [OF wfe, of s] by auto
  have us: "\<forall>y \<in> set (sells s ce). removes opn y \<longrightarrow> y \<in> set (getAllOrders cl)"
    using un views_in_cache(2) [OF wfe, of s] by auto
  have u1: "list_all2 (untouched ?K) (buys s cl) (buys s ce)"
    by (rule untouched_sides [OF conjunct1 [OF f] live lb ub])
  have u2: "list_all2 (untouched ?K) (sells s cl) (sells s ce)"
    by (rule untouched_sides [OF conjunct2 [OF f] live ls us])
  have stat: "\<And>x y. static y = static x \<Longrightarrow> (\<not> removes opn y) = (\<not> removes opn x)"
    by (drule removes_static [where opn = opn]) simp
  have rel: "spec_match_all (filter ?K (buys s cl)) (filter ?K (sells s cl)) =
          (filter ?K (buys s ce), filter ?K (sells s ce), ?t)"
    by (rule spec_match_all_filter [of ?K, OF stat sp u1 u2])
  have k: "securityOrdersIndex ?ce s = None \<Longrightarrow> securityOrdersIndex ce s = None"
    by (rule step_security_keys_None [OF wfe])
  show "pending s ?ce ?cl"
    unfolding pending_def ve vl me ml
  proof (intro conjI impI)
    show "spec_match_all (filter ?K (buys s cl)) (filter ?K (sells s cl)) =
          (filter ?K (buys s ce), filter ?K (sells s ce), ?t)"
      by (rule rel)
  next
    assume "securityOrdersIndex ?ce s = None"
    then have n: "securityOrdersIndex ce s = None" by (rule k)
    show "getMatchedQuantityInCache s ce = 0" using none [OF n] by simp
    show "getMatchedQuantityInCache s cl = 0" using none [OF n] by simp
  qed
  show "getMatchedQuantityInCache s ?cl = getMatchedQuantityInCache s cl" by (rule ml)
qed

lemma pending_addOrder:
  assumes b: "pending s ce cl"
    and wfe: "wf ce" and wfl: "wf cl"
    and ex: "exists_order (orderId ord) cl \<longleftrightarrow> exists_order (orderId ord) ce"
  shows "pending s (addOrder True ord ce) (addOrder False ord cl)"
    and "getMatchedQuantityInCache s (addOrder False ord cl) = getMatchedQuantityInCache s cl"
proof -
  let ?ce = "addOrder True ord ce"
  let ?cl = "addOrder False ord cl"
  let ?s = "securityId ord"
  let ?t = "getMatchedQuantityInCache s ce - getMatchedQuantityInCache s cl"
  have sp: "spec_match_all (buys s cl) (sells s cl) = (buys s ce, sells s ce, ?t)"
    and none: "securityOrdersIndex ce s = None \<Longrightarrow>
                 getMatchedQuantityInCache s ce = 0 \<and> getMatchedQuantityInCache s cl = 0"
    using b by (simp_all add: pending_def)
  have "pending s ?ce ?cl
      \<and> getMatchedQuantityInCache s ?cl = getMatchedQuantityInCache s cl"
  proof (cases "exists_order (orderId ord) ce")
    case True
    then show ?thesis using b ex by (simp add: addOrder_def)
  next
    case newe: False
    then have newl: "\<not> exists_order (orderId ord) cl" using ex by simp
    note lv = addOrder_lazy_views [OF wfl newl, of s]
    have rel: "spec_match_all (buys s ?cl) (sells s ?cl) =
                 (buys s ?ce, sells s ?ce,
                  getMatchedQuantityInCache s ?ce - getMatchedQuantityInCache s ?cl)"
    proof (cases "s = ?s")
      case ne: False
      show ?thesis
        using ne lv addOrder_eager_other [OF wfe newe ne] sp by auto
    next
      case True
      show ?thesis
      proof (cases "isBuySide ord")
        case buy: True
        obtain o' xs' t where m: "spec_match ord (sells ?s ce) = (o', xs', t)"
          by (cases "spec_match ord (sells ?s ce)") auto
        note ev = addOrder_eager_buy [OF wfe newe buy m]
        show ?thesis
          unfolding True
          using buy lv [unfolded True] ev sp [unfolded True] m
          by (simp add: spec_match_all_snoc_buy)
      next
        case sell: False
        obtain o' xs' t where m: "spec_match ord (buys ?s ce) = (o', xs', t)"
          by (cases "spec_match ord (buys ?s ce)") auto
        note ev = addOrder_eager_sell [OF wfe newe sell m]
        show ?thesis
          unfolding True
          using sell lv [unfolded True] ev sp [unfolded True] m
          by (simp add: spec_match_all_snoc_sell)
      qed
    qed
    have key: "getMatchedQuantityInCache s ?ce = 0 \<and> getMatchedQuantityInCache s ?cl = 0"
      if n: "securityOrdersIndex ?ce s = None"
    proof -
      have ne: "s \<noteq> ?s" using n addOrder_index_entries(2) [OF newe, of True] by auto
      have "securityOrdersIndex ce s = None"
        using n ne addOrder_index_entries(2) [OF newe, of True] by simp
      then show ?thesis
        using none lv(3) addOrder_eager_other(3) [OF wfe newe ne] by simp
    qed
    have "pending s ?ce ?cl"
      unfolding pending_def
    proof (intro conjI impI)
      show "spec_match_all (buys s ?cl) (sells s ?cl) =
                 (buys s ?ce, sells s ?ce,
                  getMatchedQuantityInCache s ?ce - getMatchedQuantityInCache s ?cl)"
        by (rule rel)
    next
      assume n: "securityOrdersIndex ?ce s = None"
      show "getMatchedQuantityInCache s ?ce = 0" using key [OF n] by simp
      show "getMatchedQuantityInCache s ?cl = 0" using key [OF n] by simp
    qed
    then show ?thesis using lv(3) by simp
  qed
  then show "pending s ?ce ?cl"
    and "getMatchedQuantityInCache s ?cl = getMatchedQuantityInCache s cl"
    by simp_all
qed

lemma pending_query_other:
  assumes b: "pending s ce cl" and wfl: "wf cl" and ne: "s \<noteq> s'"
  shows "pending s (snd (getMatchingSizeForSecurity True s' ce))
                    (snd (getMatchingSizeForSecurity False s' cl))"
    and "getMatchedQuantityInCache s (snd (getMatchingSizeForSecurity False s' cl))
           = getMatchedQuantityInCache s cl"
proof -
  have e: "snd (getMatchingSizeForSecurity True s' ce) = ce"
    by (simp add: getMatchingSizeForSecurity_def)
  note o = lazy_query_other_security [OF wfl ne]
  show "pending s (snd (getMatchingSizeForSecurity True s' ce))
                    (snd (getMatchingSizeForSecurity False s' cl))"
    using b o by (simp add: pending_def e)
  show "getMatchedQuantityInCache s (snd (getMatchingSizeForSecurity False s' cl))
           = getMatchedQuantityInCache s cl"
    using o by simp
qed

lemma pending_query_same:
  assumes b: "pending s ce cl" and wfl: "wf cl"
    and keys: "securityOrdersIndex cl s = None \<longleftrightarrow> securityOrdersIndex ce s = None"
    and single: "\<not> multiThread cl \<or> size_cache cl < 2"
  shows "fst (getMatchingSizeForSecurity False s cl) =
           fst (getMatchingSizeForSecurity True s ce) - getMatchedQuantityInCache s cl"
    and "pending s (snd (getMatchingSizeForSecurity True s ce))
                    (snd (getMatchingSizeForSecurity False s cl))"
    and "getMatchedQuantityInCache s (snd (getMatchingSizeForSecurity False s cl))
           = fst (getMatchingSizeForSecurity True s ce)"
proof -
  let ?t = "getMatchedQuantityInCache s ce - getMatchedQuantityInCache s cl"
  let ?cl = "snd (getMatchingSizeForSecurity False s cl)"
  have sp: "spec_match_all (buys s cl) (sells s cl) = (buys s ce, sells s ce, ?t)"
    and none: "securityOrdersIndex ce s = None \<Longrightarrow>
                 getMatchedQuantityInCache s ce = 0 \<and> getMatchedQuantityInCache s cl = 0"
    using b by (simp_all add: pending_def)
  have e: "snd (getMatchingSizeForSecurity True s ce) = ce"
    by (simp add: getMatchingSizeForSecurity_def)
  have "fst (getMatchingSizeForSecurity False s cl) =
           fst (getMatchingSizeForSecurity True s ce) - getMatchedQuantityInCache s cl
      \<and> pending s ce ?cl
      \<and> getMatchedQuantityInCache s ?cl = fst (getMatchingSizeForSecurity True s ce)"
  proof (cases "securityOrdersIndex ce s")
    case None
    then have "securityOrdersIndex cl s = None" using keys by simp
    with None show ?thesis using b none by (simp add: getMatchingSizeForSecurity_def)
  next
    case (Some ids)
    then have key: "securityOrdersIndex cl s \<noteq> None" using keys by simp
    note v = lazy_single_thread_views [OF wfl key single sp]
    have ea: "fst (getMatchingSizeForSecurity True s ce) = getMatchedQuantityInCache s ce"
      using Some by (simp add: getMatchingSizeForSecurity_def)
    have st: "spec_match_all (buys s ce) (sells s ce) = (buys s ce, sells s ce, 0)"
      using sp by (rule spec_match_all_stable)
    have "pending s ce ?cl"
      unfolding pending_def using v st Some by simp
    then show ?thesis using v ea by simp
  qed
  then show "fst (getMatchingSizeForSecurity False s cl) =
           fst (getMatchingSizeForSecurity True s ce) - getMatchedQuantityInCache s cl"
    and "pending s (snd (getMatchingSizeForSecurity True s ce)) ?cl"
    and "getMatchedQuantityInCache s ?cl = fst (getMatchingSizeForSecurity True s ce)"
    by (simp_all add: e)
qed

lemma exists_order_modes:
  "exists_order i (run False ops emptyCache) \<longleftrightarrow> exists_order i (run True ops emptyCache)"
  by (simp add: exists_order_mode)

lemma security_key_modes:
  "securityOrdersIndex (run False ops emptyCache) s = None \<longleftrightarrow>
   securityOrdersIndex (run True ops emptyCache) s = None"
  using security_keys_mode [of ops] by (auto simp: domIff)

lemma pending_run:
  assumes "cancelsAlike s ops emptyCache emptyCache" "singleThreadQueries s ops emptyCache"
  shows "pending s (run True ops emptyCache) (run False ops emptyCache)
       \<and> getMatchedQuantityInCache s (run False ops emptyCache) = lastAnswer s ops emptyCache 0"
  using assms
proof (induction ops rule: rev_induct)
  case Nil
  show ?case
    by (simp add: pending_def run_def)
      (simp add: emptyCache_def buys_def sells_def getMatchedQuantityInCache_def)
next
  case (snoc opn ops)
  let ?ce = "run True ops emptyCache"
  let ?cl = "run False ops emptyCache"
  have ca: "cancelsAlike s ops emptyCache emptyCache"
    and un: "\<forall>x \<in> set (getAllOrders ?ce). securityId x = s \<and> removes opn x
                \<longrightarrow> x \<in> set (getAllOrders ?cl)"
    using snoc.prems(1) by (simp_all add: cancelsAlike_snoc)
  have sq: "singleThreadQueries s ops emptyCache"
    and single: "isQueryOf s opn \<Longrightarrow> \<not> multiThread ?cl \<or> size_cache ?cl < 2"
    using snoc.prems(2) by (simp_all add: singleThreadQueries_snoc)
  have b: "pending s ?ce ?cl"
    and m: "getMatchedQuantityInCache s ?cl = lastAnswer s ops emptyCache 0"
    using snoc.IH [OF ca sq] by simp_all
  have wfe: "wf ?ce" and wfl: "wf ?cl" by (rule wf_run)+
  have "pending s (step True opn ?ce) (step False opn ?cl)
      \<and> getMatchedQuantityInCache s (step False opn ?cl) = lastAnswer s (ops @ [opn]) emptyCache 0"
  proof (cases "isCancel opn")
    case True
    then have "\<not> isQueryOf s opn" by (cases opn) simp_all
    then show ?thesis
      using pending_cancel [OF b wfe wfl True un] m by (simp add: lastAnswer_snoc)
  next
    case False
    show ?thesis
    proof (cases opn)
      case (AddOrder ord)
      then show ?thesis
        using pending_addOrder [OF b wfe wfl exists_order_modes] m by (simp add: lastAnswer_snoc)
    next
      case (GetMatchingSizeForSecurity s')
      show ?thesis
      proof (cases "s' = s")
        case True
        then have q: "isQueryOf s opn" using GetMatchingSizeForSecurity by simp
        note ps = pending_query_same [OF b wfl security_key_modes single [OF q]]
        show ?thesis
          using ps(2,3) q GetMatchingSizeForSecurity True by (simp add: lastAnswer_snoc)
      next
        case False
        then have ne: "s \<noteq> s'" by simp
        show ?thesis
          using pending_query_other [OF b wfl ne] m GetMatchingSizeForSecurity False
          by (simp add: lastAnswer_snoc)
      qed
    next
      case (SetMultiThread v)
      then show ?thesis
        using b m
        by (simp add: pending_def setMultiThread_def buys_def sells_def getMatchedQuantityInCache_def
            lastAnswer_snoc)
    qed (use False in simp_all)
  qed
  then show ?case by (simp add: run_snoc)
qed
section \<open>Properties\<close>

subsection \<open>Scenario A\<close>

text \<open>
  C1. Starting from the empty cache in eager mode, after the eight adds of scenario A,
  \<^verbatim>\<open>getMatchingSizeForSecurity\<close> returns 0 for SecId1, 2700 for SecId2 and 0 for SecId3.
\<close>

theorem scenarioA_matching_sizes:
  "answers True
     (scenarioA @ [GetMatchingSizeForSecurity ''SecId1'',
                   GetMatchingSizeForSecurity ''SecId2'',
                   GetMatchingSizeForSecurity ''SecId3''])
     emptyCache = [0, 2700, 0]"
  by code_simp


subsection \<open>Duplicate ids\<close>

text \<open>
  C8. When the cache already holds an order with the id of the order passed to
  \<^verbatim>\<open>addOrder\<close>, the call leaves the whole state as it was: nothing is inserted into the
  order list or any index, the matcher does not run, and the stored order is untouched.
  This holds in both matching modes.
\<close>

theorem addOrder_duplicate_noop:
  "exists_order (orderId ord) c \<Longrightarrow> addOrder cached ord c = c"
  by (simp add: addOrder_def)

theorem addOrder_duplicate_noop_witness:
  "exists_order (orderId dupOfBuyA) (run True [AddOrder buyA] emptyCache)
   \<and> addOrder True dupOfBuyA (run True [AddOrder buyA] emptyCache)
       = run True [AddOrder buyA] emptyCache"
proof -
  have h: "exists_order (orderId dupOfBuyA) (run True [AddOrder buyA] emptyCache)"
    by code_simp
  from addOrder_duplicate_noop [OF h, of True] h show ?thesis by simp
qed


subsection \<open>Working quantity\<close>

text \<open>
  C9 (the part that fails). \<^verbatim>\<open>unfillLots\<close> adds in 32 bits before it compares with the total
  quantity. On an order of 10 lots with 5 working, \<^verbatim>\<open>unfillLots(4294967293)\<close> wraps to 2
  working lots, where the saturating sum \<open>min qty (workingQty + n)\<close> is 10.
\<close>

theorem unfillLots_wraps:
  "workingQty (unfillLots 4294967293 halfFilled) = 2
   \<and> min (unat (qty halfFilled)) (unat (workingQty halfFilled) + unat (4294967293 :: u32)) = 10"
  by (simp add: halfFilled_def newOrder_def fillLots_def unfillLots_def)


subsection \<open>The snapshot of all orders\<close>

text \<open>
  C10. \<^verbatim>\<open>addOrder\<close> puts each accepted order at the front of \<^verbatim>\<open>_orders\<close>, so after any
  sequence of calls on a new cache \<^verbatim>\<open>getAllOrders\<close> returns exactly the live orders
  (\<open>liveOrders\<close>: the accepted and not yet cancelled ones, oldest first) in reverse
  insertion order, the most recently added first. The working quantities are left
  aside by \<open>static\<close>; every other field is compared.
\<close>

theorem getAllOrders_reverse_insertion_order:
  "map static (getAllOrders (run cached ops emptyCache)) = rev (map static (liveOrders ops))"
  unfolding liveOrders_def
  by (rule live_run [OF wf_emptyCache]) (simp add: getAllOrders_def emptyCache_def)

theorem getAllOrders_reverse_insertion_order_witness:
  "map orderId (getAllOrders (run True (scenarioA @ [CancelOrder ''OrdId4'']) emptyCache)) =
     [''OrdId8'', ''OrdId7'', ''OrdId6'', ''OrdId5'', ''OrdId3'', ''OrdId2'', ''OrdId1'']"
proof -
  have "map orderId (getAllOrders (run True (scenarioA @ [CancelOrder ''OrdId4'']) emptyCache))
        = map orderId (map static (getAllOrders (run True (scenarioA @ [CancelOrder ''OrdId4'']) emptyCache)))"
    by (simp add: comp_def)
  also have "\<dots> = map orderId (rev (map static (liveOrders (scenarioA @ [CancelOrder ''OrdId4'']))))"
    by (simp only: getAllOrders_reverse_insertion_order)
  also have "\<dots> = [''OrdId8'', ''OrdId7'', ''OrdId6'', ''OrdId5'', ''OrdId3'', ''OrdId2'', ''OrdId1'']"
    by code_simp
  finally show ?thesis .
qed


subsection \<open>Batch cancellation by quantity\<close>

text \<open>
  C7. On every cache reached from the empty one,
  \<^verbatim>\<open>cancelOrdersForSecIdWithMinimumQty(s, m)\<close> removes exactly the orders of security \<open>s\<close>
  whose total quantity \<open>qty\<close> (not \<open>workingQty\<close>) is at least \<open>m\<close>; all other orders stay
  in the list, in the same order and with every field unchanged, and the by-id index
  holds exactly the ids of the orders that stay.
\<close>

theorem cancelOrdersForSecIdWithMinimumQty_exact:
  "getAllOrders (cancelOrdersForSecIdWithMinimumQty s m (run cached ops emptyCache)) =
     filter (\<lambda>x. \<not> (securityId x = s \<and> m \<le> qty x)) (getAllOrders (run cached ops emptyCache))
   \<and> (\<forall>i. exists_order i (cancelOrdersForSecIdWithMinimumQty s m (run cached ops emptyCache)) =
          (i \<in> orderId ` set (getAllOrders
                  (cancelOrdersForSecIdWithMinimumQty s m (run cached ops emptyCache)))))"
proof -
  have "wf (step cached (CancelOrdersForSecIdWithMinimumQty s m) (run cached ops emptyCache))"
    by (rule wf_step [OF wf_run])
  then have "wf (cancelOrdersForSecIdWithMinimumQty s m (run cached ops emptyCache))" by simp
  then show ?thesis
    by (simp add: getAllOrders_cancelOrdersForSecIdWithMinimumQty [OF wf_run] wf_exists_order)
qed

text \<open>The buy order of 500 lots has 400 working lots after matching the sell order; a
  threshold of 450 cancels it all the same.\<close>

theorem cancelOrdersForSecIdWithMinimumQty_exact_witness:
  "map workingQty (getAllOrders (run True [AddOrder sellB, AddOrder buyA500] emptyCache)) = [400, 0]
   \<and> map orderId (getAllOrders (cancelOrdersForSecIdWithMinimumQty ''SecId1'' 450
          (run True [AddOrder sellB, AddOrder buyA500] emptyCache))) = [''s1'']"
proof -
  have "map orderId (getAllOrders (cancelOrdersForSecIdWithMinimumQty ''SecId1'' 450
          (run True [AddOrder sellB, AddOrder buyA500] emptyCache)))
        = map orderId (filter (\<lambda>x. \<not> (securityId x = ''SecId1'' \<and> 450 \<le> qty x))
            (getAllOrders (run True [AddOrder sellB, AddOrder buyA500] emptyCache)))"
    using cancelOrdersForSecIdWithMinimumQty_exact [of "''SecId1''" 450 True "[AddOrder sellB, AddOrder buyA500]"]
    by simp
  also have "\<dots> = [''s1'']" by code_simp
  finally have a: "map orderId (getAllOrders (cancelOrdersForSecIdWithMinimumQty ''SecId1'' 450
          (run True [AddOrder sellB, AddOrder buyA500] emptyCache))) = [''s1'']" .
  have b: "map workingQty (getAllOrders (run True [AddOrder sellB, AddOrder buyA500] emptyCache)) = [400, 0]"
    by code_simp
  from a b show ?thesis by simp
qed


subsection \<open>Cancelling by id\<close>

text \<open>
  C6. On every cache reached in eager mode, cancelling an id that is present removes
  the order from the by-id map, from every by-user and by-security id set, from both
  side lists and from the order list (all other orders stay as they are), and leaves
  the match cache untouched: \<^verbatim>\<open>getMatchingSizeForSecurity\<close> returns the same value for
  every security before and after the cancel.
\<close>

theorem cancelOrder_removes_order_keeps_match_cache:
  "map_of (orderIndex (run True ops emptyCache)) i = Some p \<Longrightarrow>
   (let c = run True ops emptyCache; c' = cancelOrder i c
    in \<not> exists_order i c'
       \<and> (\<forall>u. i \<notin> set (subscript (userOrdersIndex c') u []))
       \<and> (\<forall>s. i \<notin> set (subscript (securityOrdersIndex c') s []))
       \<and> (\<forall>s. p \<notin> set (subscript (securityLongOrdersIndex c') s []))
       \<and> (\<forall>s. p \<notin> set (subscript (securityShortOrdersIndex c') s []))
       \<and> p \<notin> set (orders c')
       \<and> getAllOrders c' = filter (\<lambda>x. orderId x \<noteq> i) (getAllOrders c)
       \<and> matchedQuantity c' = matchedQuantity c
       \<and> (\<forall>q. fst (getMatchingSizeForSecurity True q c') = fst (getMatchingSizeForSecurity True q c)))"
proof -
  assume i: "map_of (orderIndex (run True ops emptyCache)) i = Some p"
  have wf: "wf (run True ops emptyCache)" by (rule wf_run)
  note r = cancelOrder_removes [OF wf i]
  have "fst (getMatchingSizeForSecurity True q (cancelOrder i (run True ops emptyCache)))
        = fst (getMatchingSizeForSecurity True q (run True ops emptyCache))" for q
    using cancelOrder_keeps_security_keys [OF wf, of i q]
    by (simp add: getMatchingSizeForSecurity_def getMatchedQuantityInCache_def cancelOrder_fields [OF i])
  then show ?thesis
    using r by (simp add: Let_def getAllOrders_cancelOrder [OF wf] cancelOrder_fields [OF i])
qed

theorem cancelOrder_removes_order_keeps_match_cache_witness:
  "map_of (orderIndex (run True [AddOrder buyA, AddOrder sellB] emptyCache)) ''s1'' = Some 2
   \<and> fst (getMatchingSizeForSecurity True ''SecId1''
          (cancelOrder ''s1'' (run True [AddOrder buyA, AddOrder sellB] emptyCache))) = 100
   \<and> \<not> exists_order ''s1'' (cancelOrder ''s1'' (run True [AddOrder buyA, AddOrder sellB] emptyCache))"
proof -
  have h: "map_of (orderIndex (run True [AddOrder buyA, AddOrder sellB] emptyCache)) ''s1'' = Some 2"
    by code_simp
  have v: "fst (getMatchingSizeForSecurity True ''SecId1''
             (run True [AddOrder buyA, AddOrder sellB] emptyCache)) = 100"
    by code_simp
  from cancelOrder_removes_order_keeps_match_cache [OF h] h v show ?thesis
    by (simp add: Let_def)
qed


subsection \<open>The keys of the by-user and by-security maps\<close>

text \<open>
  C5 as stated fails: after the only order of User1 and SecId1 is cancelled, no order is
  left and both maps still hold the key.
\<close>

theorem index_entries_counterexample:
  "getAllOrders (run True [AddOrder buyA, CancelOrder ''b1''] emptyCache) = []
   \<and> ''User1'' \<in> dom (userOrdersIndex (run True [AddOrder buyA, CancelOrder ''b1''] emptyCache))
   \<and> ''SecId1'' \<in> dom (securityOrdersIndex (run True [AddOrder buyA, CancelOrder ''b1''] emptyCache))"
proof -
  have "getAllOrders (run True [AddOrder buyA, CancelOrder ''b1''] emptyCache) = []"
    "userOrdersIndex (run True [AddOrder buyA, CancelOrder ''b1''] emptyCache) ''User1'' = Some []"
    "securityOrdersIndex (run True [AddOrder buyA, CancelOrder ''b1''] emptyCache) ''SecId1'' = Some []"
    by code_simp+
  then show ?thesis by (simp add: domIff)
qed

text \<open>
  C5 as amended. Entries of the by-user and by-security maps are created by the first
  accepted \<^verbatim>\<open>addOrder\<close> of the key (a key of the map is the user, or security, of an order
  that was added; an accepted add leaves the key mapped to the old ids and the new
  one), and no operation ever removes a key. Cancelling an order leaves its user and
  its security mapped to the remaining ids: to the empty id set when it was the last
  live order of the key.
\<close>

theorem index_entries_never_pruned:
  "(let c = run cached ops emptyCache
    in dom (userOrdersIndex c) \<subseteq> {user ord |ord. AddOrder ord \<in> set ops}
     \<and> dom (securityOrdersIndex c) \<subseteq> {securityId ord |ord. AddOrder ord \<in> set ops}
     \<and> dom (userOrdersIndex c) \<subseteq> dom (userOrdersIndex (step cached opn c))
     \<and> dom (securityOrdersIndex c) \<subseteq> dom (securityOrdersIndex (step cached opn c))
     \<and> (\<not> exists_order (orderId ord) c \<longrightarrow>
          userOrdersIndex (addOrder cached ord c) (user ord) =
            Some (List.insert (orderId ord) (subscript (userOrdersIndex c) (user ord) []))
        \<and> securityOrdersIndex (addOrder cached ord c) (securityId ord) =
            Some (List.insert (orderId ord) (subscript (securityOrdersIndex c) (securityId ord) [])))
     \<and> (map_of (orderIndex c) i = Some p \<longrightarrow>
          (let c' = cancelOrder i c; u = user (deref (heap c) p); s = securityId (deref (heap c) p)
           in userOrdersIndex c' u = Some (removeAll i (subscript (userOrdersIndex c) u []))
            \<and> securityOrdersIndex c' s = Some (removeAll i (subscript (securityOrdersIndex c) s []))
            \<and> ((\<forall>x \<in> set (getAllOrders c'). user x \<noteq> u) \<longrightarrow> userOrdersIndex c' u = Some [])
            \<and> ((\<forall>x \<in> set (getAllOrders c'). securityId x \<noteq> s) \<longrightarrow>
                  securityOrdersIndex c' s = Some []))))"
proof -
  let ?c = "run cached ops emptyCache"
  have wf: "wf ?c" by (rule wf_run)
  have a: "dom (userOrdersIndex ?c) \<subseteq> {user ord |ord. AddOrder ord \<in> set ops}"
    by (rule user_keys_from_adds)
  have b: "dom (securityOrdersIndex ?c) \<subseteq> {securityId ord |ord. AddOrder ord \<in> set ops}"
    by (rule security_keys_from_adds)
  have c: "dom (userOrdersIndex ?c) \<subseteq> dom (userOrdersIndex (step cached opn ?c))"
    "dom (securityOrdersIndex ?c) \<subseteq> dom (securityOrdersIndex (step cached opn ?c))"
    by (simp_all add: step_keys [OF wf])
  have d: "userOrdersIndex (addOrder cached ord ?c) (user ord) =
            Some (List.insert (orderId ord) (subscript (userOrdersIndex ?c) (user ord) []))
        \<and> securityOrdersIndex (addOrder cached ord ?c) (securityId ord) =
            Some (List.insert (orderId ord) (subscript (securityOrdersIndex ?c) (securityId ord) []))"
    if "\<not> exists_order (orderId ord) ?c"
    by (simp add: addOrder_index_entries [OF that])
  have e: "userOrdersIndex (cancelOrder i ?c) (user (deref (heap ?c) p)) =
             Some (removeAll i (subscript (userOrdersIndex ?c) (user (deref (heap ?c) p)) []))
         \<and> securityOrdersIndex (cancelOrder i ?c) (securityId (deref (heap ?c) p)) =
             Some (removeAll i (subscript (securityOrdersIndex ?c) (securityId (deref (heap ?c) p)) []))
         \<and> ((\<forall>x \<in> set (getAllOrders (cancelOrder i ?c)). user x \<noteq> user (deref (heap ?c) p)) \<longrightarrow>
               userOrdersIndex (cancelOrder i ?c) (user (deref (heap ?c) p)) = Some [])
         \<and> ((\<forall>x \<in> set (getAllOrders (cancelOrder i ?c)). securityId x \<noteq> securityId (deref (heap ?c) p)) \<longrightarrow>
               securityOrdersIndex (cancelOrder i ?c) (securityId (deref (heap ?c) p)) = Some [])"
    if i: "map_of (orderIndex ?c) i = Some p"
  proof -
    let ?c' = "cancelOrder i ?c"
    let ?u = "user (deref (heap ?c) p)"
    let ?s = "securityId (deref (heap ?c) p)"
    have w: "wf ?c'" using wf by (rule wf_cancelOrder)
    have u: "userOrdersIndex ?c' ?u = Some (removeAll i (subscript (userOrdersIndex ?c) ?u []))"
      and s: "securityOrdersIndex ?c' ?s = Some (removeAll i (subscript (securityOrdersIndex ?c) ?s []))"
      by (simp_all add: cancelOrder_fields [OF i])
    have "userOrdersIndex ?c' ?u = Some []" if "\<forall>x \<in> set (getAllOrders ?c'). user x \<noteq> ?u"
    proof -
      from that have "set (subscript (userOrdersIndex ?c') ?u []) = {}"
        by (auto simp: wf_user_index_ids [OF w])
      then have e: "subscript (userOrdersIndex ?c') ?u [] = []" by simp
      obtain v where v: "userOrdersIndex ?c' ?u = Some v" using u by simp
      with e have "v = []" by simp
      with v show ?thesis by simp
    qed
    moreover have "securityOrdersIndex ?c' ?s = Some []"
      if "\<forall>x \<in> set (getAllOrders ?c'). securityId x \<noteq> ?s"
    proof -
      from that have "set (subscript (securityOrdersIndex ?c') ?s []) = {}"
        by (auto simp: wf_security_index_ids [OF w])
      then have e: "subscript (securityOrdersIndex ?c') ?s [] = []" by simp
      obtain v where v: "securityOrdersIndex ?c' ?s = Some v" using s by simp
      with e have "v = []" by simp
      with v show ?thesis by simp
    qed
    ultimately show ?thesis using u s by blast
  qed
  from a b c d e show ?thesis unfolding Let_def by blast
qed

theorem index_entries_never_pruned_witness:
  "\<not> exists_order (orderId sellB) (run True [AddOrder buyA] emptyCache)
   \<and> map_of (orderIndex (run True [AddOrder buyA] emptyCache)) ''b1'' = Some 1
   \<and> getAllOrders (cancelOrder ''b1'' (run True [AddOrder buyA] emptyCache)) = []
   \<and> userOrdersIndex (cancelOrder ''b1'' (run True [AddOrder buyA] emptyCache)) ''User1'' = Some []
   \<and> securityOrdersIndex (cancelOrder ''b1'' (run True [AddOrder buyA] emptyCache)) ''SecId1'' = Some []
   \<and> userOrdersIndex (addOrder True sellB (run True [AddOrder buyA] emptyCache)) ''User2'' = Some [''s1'']"
proof -
  let ?c = "run True [AddOrder buyA] emptyCache"
  have h1: "\<not> exists_order (orderId sellB) ?c" by code_simp
  have h2: "map_of (orderIndex ?c) ''b1'' = Some 1" by code_simp
  have h3: "getAllOrders (cancelOrder ''b1'' ?c) = []" by code_simp
  have u: "user (deref (heap ?c) 1) = ''User1''" "securityId (deref (heap ?c) 1) = ''SecId1''"
    "user sellB = ''User2''" "orderId sellB = ''s1''" "subscript (userOrdersIndex ?c) ''User2'' [] = []"
    by code_simp+
  note t = index_entries_never_pruned
    [of True "[AddOrder buyA]" "CancelOrder ''b1''" sellB "''b1''" 1, unfolded Let_def]
  from t h2 have "(\<forall>x \<in> set (getAllOrders (cancelOrder ''b1'' ?c)). user x \<noteq> user (deref (heap ?c) 1)) \<longrightarrow>
      userOrdersIndex (cancelOrder ''b1'' ?c) (user (deref (heap ?c) 1)) = Some []"
    by blast
  with h3 u(1) have a: "userOrdersIndex (cancelOrder ''b1'' ?c) ''User1'' = Some []" by simp
  from t h2 have "(\<forall>x \<in> set (getAllOrders (cancelOrder ''b1'' ?c)).
        securityId x \<noteq> securityId (deref (heap ?c) 1)) \<longrightarrow>
      securityOrdersIndex (cancelOrder ''b1'' ?c) (securityId (deref (heap ?c) 1)) = Some []"
    by blast
  with h3 u(2) have b: "securityOrdersIndex (cancelOrder ''b1'' ?c) ''SecId1'' = Some []" by simp
  from t h1 have "userOrdersIndex (addOrder True sellB ?c) (user sellB) =
      Some (List.insert (orderId sellB) (subscript (userOrdersIndex ?c) (user sellB) []))"
    by blast
  with u(3,4,5) have c: "userOrdersIndex (addOrder True sellB ?c) ''User2'' = Some [''s1'']" by simp
  from h1 h2 h3 a b c show ?thesis by simp
qed


subsection \<open>Adding and then cancelling the same id\<close>

text \<open>
  C4 as stated fails. The cache holds one buy order of CompanyA with 500 working lots;
  adding a sell order of CompanyB for 100 lots fills 100 lots of each, and cancelling the
  sell order leaves the buy order with 400 working lots. The by-user entry of User2,
  absent before, is an empty id set afterwards.
\<close>

theorem add_then_cancel_counterexample:
  "\<not> exists_order (orderId sellB) (run True [AddOrder buyA500] emptyCache)
   \<and> map workingQty (getAllOrders (run True [AddOrder buyA500] emptyCache)) = [500]
   \<and> map workingQty (getAllOrders
         (cancelOrder (orderId sellB) (addOrder True sellB (run True [AddOrder buyA500] emptyCache)))) = [400]
   \<and> userOrdersIndex (run True [AddOrder buyA500] emptyCache) ''User2'' = None
   \<and> userOrdersIndex
         (cancelOrder (orderId sellB) (addOrder True sellB (run True [AddOrder buyA500] emptyCache)))
         ''User2'' = Some []"
  by code_simp

text \<open>
  C4 as amended. On every cache reached in eager mode, adding an order \<open>O\<close> with a new id
  and then cancelling that id restores the order list and the by-id index exactly, the
  contents of every by-user, by-security and side-list entry (\<open>subscript\<close> reads an absent
  key as the empty entry, which is what may remain), and every order that is not a
  counterparty of \<open>O\<close>, working quantity included (\<open>cps\<close>: exactly the orders of the
  opposite side of the security of \<open>O\<close>). The counterparties keep every field but the working quantity
  (\<open>same_static\<close>); their working quantities are not restored but are the ones the matcher
  of section 4.3 (\<open>spec_match\<close>) leaves: each is at most what it was, and together they
  have dropped by exactly the \<open>m\<close> lots that the add matched, which are at most the working
  lots of \<open>O\<close>. The match cache of the security of \<open>O\<close> has grown by \<open>m\<close> (a 32-bit
  addition), and no other entry of it has changed.
\<close>

theorem add_then_cancel_restores:
  "\<not> exists_order (orderId ord) (run True ops emptyCache) \<Longrightarrow>
   (let c = run True ops emptyCache;
        c2 = cancelOrder (orderId ord) (addOrder True ord c);
        m = fst (matchOrderInCache (newPtr c) (snd (insertOrder ord c)));
        cps = (if isBuySide ord
               then subscript (securityShortOrdersIndex c) (securityId ord) []
               else subscript (securityLongOrdersIndex c) (securityId ord) [])
    in orders c2 = orders c
     \<and> orderIndex c2 = orderIndex c
     \<and> same_static (heap c) (heap c2)
     \<and> (\<forall>a. workingQty (deref (heap c2) a) \<le> workingQty (deref (heap c) a))
     \<and> (\<forall>k. subscript (userOrdersIndex c2) k [] = subscript (userOrdersIndex c) k [])
     \<and> (\<forall>k. subscript (securityOrdersIndex c2) k [] = subscript (securityOrdersIndex c) k [])
     \<and> (\<forall>k. subscript (securityLongOrdersIndex c2) k [] = subscript (securityLongOrdersIndex c) k [])
     \<and> (\<forall>k. subscript (securityShortOrdersIndex c2) k [] = subscript (securityShortOrdersIndex c) k [])
     \<and> (\<forall>q. getMatchedQuantityInCache q c2 =
              getMatchedQuantityInCache q c + (if q = securityId ord then m else 0))
     \<and> set cps = {b \<in> set (orders c). securityId (deref (heap c) b) = securityId ord
                                      \<and> isBuySide (deref (heap c) b) \<noteq> isBuySide ord}
     \<and> (\<forall>b. b \<notin> set cps \<longrightarrow> heap c2 b = heap c b)
     \<and> map (deref (heap c2)) cps = fst (snd (spec_match ord (map (deref (heap c)) cps)))
     \<and> m = snd (snd (spec_match ord (map (deref (heap c)) cps)))
     \<and> sum_list (map (\<lambda>b. unat (workingQty (deref (heap c) b))) cps) =
         sum_list (map (\<lambda>b. unat (workingQty (deref (heap c2) b))) cps) + unat m
     \<and> unat m \<le> unat (workingQty ord))"
proof -
  assume new: "\<not> exists_order (orderId ord) (run True ops emptyCache)"
  let ?c = "run True ops emptyCache"
  let ?c2 = "cancelOrder (orderId ord) (addOrder True ord ?c)"
  let ?cps = "if isBuySide ord
               then subscript (securityShortOrdersIndex ?c) (securityId ord) []
               else subscript (securityLongOrdersIndex ?c) (securityId ord) []"
  have wf: "wf ?c" by (rule wf_run)
  obtain ord' xs' t where sp: "spec_match ord (map (deref (heap ?c)) ?cps) = (ord', xs', t)"
    by (cases "spec_match ord (map (deref (heap ?c)) ?cps)") auto
  note f = add_then_cancel_fills [OF wf new sp]
  note cv = spec_match_conserves [OF sp]
  have fr: "\<forall>b. b \<notin> set ?cps \<longrightarrow> heap ?c2 b = heap ?c b" using f(1) by blast
  have cs: "set ?cps = {b \<in> set (orders ?c). securityId (deref (heap ?c) b) = securityId ord
                                      \<and> isBuySide (deref (heap ?c) b) \<noteq> isBuySide ord}"
    using wf_long_distinct_set(2) [OF wf, of "securityId ord"]
      wf_short_distinct_set(2) [OF wf, of "securityId ord"]
    by auto
  have s: "sum_list (map (\<lambda>b. unat (workingQty (deref (heap ?c) b))) ?cps) =
         sum_list (map (\<lambda>b. unat (workingQty (deref (heap ?c2) b))) ?cps) + unat t"
    using cv f(2) [symmetric] by (simp add: comp_def)
  have le: "unat t \<le> unat (workingQty ord)" using cv by simp
  show ?thesis
    unfolding Let_def
    using add_then_cancel [OF wf new] fr f(2) f(3) s le sp cs
    by (simp only: fst_conv snd_conv simp_thms)
qed

text \<open>A sell order of 100 lots is added to a buy order of 500 lots and cancelled: the
  buy order is left with 400 working lots and the match cache with 100.\<close>

theorem add_then_cancel_restores_witness:
  "\<not> exists_order (orderId sellB) (run True [AddOrder buyA500] emptyCache)
   \<and> orders (cancelOrder (orderId sellB) (addOrder True sellB (run True [AddOrder buyA500] emptyCache)))
       = orders (run True [AddOrder buyA500] emptyCache)
   \<and> getMatchedQuantityInCache ''SecId1''
         (cancelOrder (orderId sellB) (addOrder True sellB (run True [AddOrder buyA500] emptyCache))) = 100
   \<and> map workingQty (getAllOrders
         (cancelOrder (orderId sellB) (addOrder True sellB (run True [AddOrder buyA500] emptyCache)))) = [400]"
proof -
  let ?c = "run True [AddOrder buyA500] emptyCache"
  have h: "\<not> exists_order (orderId sellB) ?c" by code_simp
  have v: "getMatchedQuantityInCache ''SecId1'' ?c = 0" "securityId sellB = ''SecId1''"
    "fst (matchOrderInCache (newPtr ?c) (snd (insertOrder sellB ?c))) = 100"
    by code_simp+
  have w: "map workingQty (getAllOrders (cancelOrder (orderId sellB) (addOrder True sellB ?c))) = [400]"
    by code_simp
  note t = add_then_cancel_restores [OF h, unfolded Let_def]
  from t have a: "orders (cancelOrder (orderId sellB) (addOrder True sellB ?c)) = orders ?c"
    by blast
  from t have "getMatchedQuantityInCache ''SecId1'' (cancelOrder (orderId sellB) (addOrder True sellB ?c))
      = getMatchedQuantityInCache ''SecId1'' ?c
        + (if ''SecId1'' = securityId sellB
           then fst (matchOrderInCache (newPtr ?c) (snd (insertOrder sellB ?c))) else 0)"
    by blast
  with v have b: "getMatchedQuantityInCache ''SecId1''
      (cancelOrder (orderId sellB) (addOrder True sellB ?c)) = 100"
    by simp
  from h a b w show ?thesis by simp
qed


subsection \<open>The matcher\<close>

text \<open>
  C2. Let an order with a new id be admitted to any cache reached from the empty one.
  The matcher called on it scans the orders of the opposite side of its security, oldest
  first (\<open>candidates\<close>), and does to the order and to the candidates exactly what
  \<open>spec_match\<close> does: it skips a candidate that is filled or of the same company, fills
  both sides by the minimum of the working quantities otherwise (skipping a zero
  minimum), and stops once the order is filled. It returns the sum \<open>t\<close> of the matched
  amounts and adds it to the match cache of the security. No other order, no other
  match-cache entry and no index changes.
\<close>

theorem matcher_follows_specification:
  "\<not> exists_order (orderId ord) (run cached ops emptyCache) \<Longrightarrow>
   (let c0 = run cached ops emptyCache;
        ptr = fst (insertOrder ord c0);
        c = snd (insertOrder ord c0);
        candidates = filter (\<lambda>x. securityId x = securityId ord \<and> isBuySide x \<noteq> isBuySide ord)
                       (rev (getAllOrders c0));
        (ord', candidates', t) = spec_match ord candidates;
        c' = snd (matchOrderInCache ptr c)
    in map (deref (heap c)) (counterParties ptr c) = candidates
     \<and> fst (matchOrderInCache ptr c) = t
     \<and> deref (heap c') ptr = ord'
     \<and> map (deref (heap c')) (counterParties ptr c) = candidates'
     \<and> (\<forall>b. b \<noteq> ptr \<longrightarrow> b \<notin> set (counterParties ptr c) \<longrightarrow> heap c' b = heap c b)
     \<and> (\<forall>q. getMatchedQuantityInCache q c' =
              getMatchedQuantityInCache q c0 + (if q = securityId ord then t else 0))
     \<and> orders c' = orders c \<and> orderIndex c' = orderIndex c
     \<and> userOrdersIndex c' = userOrdersIndex c \<and> securityOrdersIndex c' = securityOrdersIndex c
     \<and> (\<forall>k. subscript (securityLongOrdersIndex c') k [] = subscript (securityLongOrdersIndex c) k [])
     \<and> (\<forall>k. subscript (securityShortOrdersIndex c') k [] = subscript (securityShortOrdersIndex c) k []))"
proof -
  assume new: "\<not> exists_order (orderId ord) (run cached ops emptyCache)"
  let ?st = "run cached ops emptyCache"
  let ?p = "newPtr ?st"
  let ?c = "snd (insertOrder ord ?st)"
  let ?cand = "filter (\<lambda>x. securityId x = securityId ord \<and> isBuySide x \<noteq> isBuySide ord)
                 (rev (getAllOrders ?st))"
  have wf0: "wf ?st" by (rule wf_run)
  have wf: "wf ?c" using wf0 new by (rule wf_insertOrder)
  obtain ord' xs' t where sp: "spec_match ord ?cand = (ord', xs', t)"
    by (cases "spec_match ord ?cand") auto
  have cv: "map (deref (heap ?c)) (counterParties ?p ?c) = ?cand"
    by (rule counterParties_insertOrder(2) [OF wf0])
  have d: "deref (heap ?c) ?p = ord" by simp
  have sp': "spec_match (deref (heap ?c) ?p) (map (deref (heap ?c)) (counterParties ?p ?c)) = (ord', xs', t)"
    by (simp only: d cv sp)
  note m = matchOrderInCache_spec [OF wf sp']
  have cache: "getMatchedQuantityInCache q (snd (matchOrderInCache ?p ?c)) =
                 getMatchedQuantityInCache q ?st + (if q = securityId ord then t else 0)" for q
    using matchOrderInCache_cache [of q ?p ?c] m(1)
    by (simp add: getMatchedQuantityInCache_def)
  have P: "fst (insertOrder ord ?st) = ?p" by simp
  show ?thesis
    unfolding Let_def P sp prod.case
    by (intro conjI allI impI)
      (simp_all only: cv m(1,2,3) cache matchOrderInCache_fields, rule m(4))
qed

theorem matcher_follows_specification_witness:
  "\<not> exists_order (orderId buyA500) (run True [AddOrder sellB] emptyCache)
   \<and> spec_match buyA500 [sellB] = (buyA500\<lparr>workingQty := 400\<rparr>, [sellB\<lparr>workingQty := 0\<rparr>], 100)
   \<and> fst (matchOrderInCache (fst (insertOrder buyA500 (run True [AddOrder sellB] emptyCache)))
             (snd (insertOrder buyA500 (run True [AddOrder sellB] emptyCache)))) = 100"
proof -
  let ?st = "run True [AddOrder sellB] emptyCache"
  have h: "\<not> exists_order (orderId buyA500) ?st" by code_simp
  have cand: "filter (\<lambda>x. securityId x = securityId buyA500 \<and> isBuySide x \<noteq> isBuySide buyA500)
                (rev (getAllOrders ?st)) = [sellB]"
    by code_simp
  have sp: "spec_match buyA500 [sellB] = (buyA500\<lparr>workingQty := 400\<rparr>, [sellB\<lparr>workingQty := 0\<rparr>], 100)"
    by code_simp
  from matcher_follows_specification [OF h]
  have "fst (matchOrderInCache (fst (insertOrder buyA500 ?st)) (snd (insertOrder buyA500 ?st))) = 100"
    unfolding Let_def cand sp prod.case by blast
  with h sp show ?thesis by simp
qed


subsection \<open>Eager mode and lazy mode\<close>





text \<open>
  A repeated query in the single-thread loop: it sums what its own matcher calls return,
  so the second query returns only what has been matched since the first one, where
  eager mode returns the running total again.
\<close>

lemma lazy_single_thread_repeated_query:
  "answers True [SetMultiThread False, AddOrder buyA, AddOrder sellB,
                 GetMatchingSizeForSecurity ''SecId1'',
                 GetMatchingSizeForSecurity ''SecId1''] emptyCache = [100, 100]
   \<and> answers False [SetMultiThread False, AddOrder buyA, AddOrder sellB,
                 GetMatchingSizeForSecurity ''SecId1'',
                 GetMatchingSizeForSecurity ''SecId1''] emptyCache = [100, 0]"
  by code_simp

end
